theory Spec2Isabelle
  imports Complex_Main
begin

section \<open>Abstract syntax of inlined OpenQASM programs\<close>

text \<open>
  The swap mapper of \<^verbatim>\<open>mapping/mapping/swap.hpp\<close> rewrites a program that has been
  inlined and laid out: its statements are applications of the two primitive gates
  \<^verbatim>\<open>U\<close> and \<^verbatim>\<open>CX\<close>, barriers, measurements, resets and declarations. A qubit
  reference is a register name with an offset (\<^verbatim>\<open>ast::VarAccess\<close>); offsets come
  from the parser and are never negative. Every node carries the source position it was
  parsed at. An angle is an expression over \<open>\<pi>\<close>, literals and the four arithmetic
  operators. Classical conditionals are left out of this development: the source carries
  a TODO about them and the statements proved below are about unguarded statements.
\<close>

type_synonym Position = nat

datatype VarAccess = VarAccess (va_pos: Position) (var: string) (offset: nat)

datatype BinaryOp = Plus | Minus | Times | Divide

datatype Expr =
    PiExpr Position
  | IntExpr Position int
  | RealExpr Position real
  | BExpr Position Expr BinaryOp Expr

datatype Gate =
    UGate Position Expr Expr Expr VarAccess
  | CNOTGate Position VarAccess VarAccess
  | BarrierGate Position "VarAccess list"

datatype Stmt =
    GateStmt Gate
  | MeasureStmt Position VarAccess VarAccess
  | ResetStmt Position VarAccess
  | RegisterDecl Position string bool nat
  | GateDecl Position string
  | OracleDecl Position string

type_synonym Program = "Stmt list"

section \<open>The device\<close>

text \<open>
  Modelled from the spec: the class \<^verbatim>\<open>mapping::Device\<close> (\<^verbatim>\<open>mapping/device.hpp\<close>) is
  not among the sources. The specification gives it a qubit count \<open>n\<close>, a directional
  \<open>n \<times> n\<close> boolean adjacency \<open>adj\<close>, the query \<open>coupled(i, j)\<close> returning
  \<open>adj[i][j]\<close>, and \<open>shortest_path(src, dst)\<close>: breadth-first search over the
  symmetric closure of \<open>adj\<close>, the first discovered path winning, returned without the
  source and with the destination, empty when \<open>src = dst\<close> or when there is no path,
  and failing with a domain error on an index out of range. Fidelities play no part in
  the swap mapper and are not modelled here. The errors are the exceptions of this
  development: the domain error of the device, the failure of a layout on a program with
  more qubits than the device, and the failure of a collaborator that is not modelled.
\<close>

record Device =
  qubits :: nat
  couplings :: "nat \<Rightarrow> nat \<Rightarrow> bool"

datatype error = DomainError | InsufficientQubits | NotModelled

definition coupled :: "Device \<Rightarrow> nat \<Rightarrow> nat \<Rightarrow> bool" where
  "coupled D i j = couplings D i j"

definition adjacent :: "Device \<Rightarrow> nat \<Rightarrow> nat \<Rightarrow> bool" where
  "adjacent D i j = (coupled D i j \<or> coupled D j i)"

definition neighbours :: "Device \<Rightarrow> nat \<Rightarrow> nat list" where
  "neighbours D u = filter (adjacent D u) [0..<qubits D]"

definition undiscovered :: "Device \<Rightarrow> (nat \<rightharpoonup> nat list) \<Rightarrow> nat list" where
  "undiscovered D tab = filter (\<lambda>w. tab w = None) [0..<qubits D]"

text \<open>
  The search keeps a queue of discovered vertices, each with the path that reached it,
  and a table from every discovered vertex to that path (the predecessor table, read
  back). Neighbours are scanned in ascending index order.
\<close>

function bfs :: "Device \<Rightarrow> (nat \<times> nat list) list \<Rightarrow> (nat \<rightharpoonup> nat list) \<Rightarrow> (nat \<rightharpoonup> nat list)" where
  "bfs D [] tab = tab"
| "bfs D ((u, pu) # queue) tab =
     (let new = filter (\<lambda>w. tab w = None) (neighbours D u)
      in bfs D (queue @ map (\<lambda>w. (w, pu @ [w])) new)
               (fold (\<lambda>w t. t(w \<mapsto> pu @ [w])) new tab))"
  by pat_completeness auto

lemma fold_upd_cases:
  "fold (\<lambda>w t. t(w \<mapsto> f w)) new tab w = (if w \<in> set new then Some (f w) else tab w)"
  by (induction new arbitrary: tab) auto

lemma undiscovered_shrinks:
  assumes "filter (\<lambda>w. tab w = None) (neighbours D u) \<noteq> []"
  shows "length (undiscovered D (fold (\<lambda>w t. t(w \<mapsto> f w))
            (filter (\<lambda>w. tab w = None) (neighbours D u)) tab))
         < length (undiscovered D tab)"
proof -
  let ?new = "filter (\<lambda>w. tab w = None) (neighbours D u)"
  let ?tab = "fold (\<lambda>w t. t(w \<mapsto> f w)) ?new tab"
  from assms obtain v where v: "v \<in> set ?new"
    by (cases ?new) auto
  then have vn: "v < qubits D" and vt: "tab v = None"
    by (auto simp: neighbours_def)
  have "filter (\<lambda>w. ?tab w = None) [0..<qubits D]
        = filter (\<lambda>w. w \<notin> set ?new) (filter (\<lambda>w. tab w = None) [0..<qubits D])"
    by (auto simp: fold_upd_cases intro: filter_cong)
  moreover have "length (filter (\<lambda>w. w \<notin> set ?new) (filter (\<lambda>w. tab w = None) [0..<qubits D]))
        < length (filter (\<lambda>w. tab w = None) [0..<qubits D])"
  proof (rule length_filter_less)
    show "v \<in> set (filter (\<lambda>w. tab w = None) [0..<qubits D])" using vn vt by simp
    show "\<not> v \<notin> set ?new" using v by simp
  qed
  ultimately have "length (filter (\<lambda>w. ?tab w = None) [0..<qubits D])
        < length (filter (\<lambda>w. tab w = None) [0..<qubits D])"
    by simp
  then show ?thesis by (simp add: undiscovered_def)
qed

termination bfs
proof (relation "measures [\<lambda>(D, q, tab). length (undiscovered D tab), \<lambda>(D, q, tab). length q]")
  show "wf (measures [\<lambda>(D, q, tab). length (undiscovered D tab), \<lambda>(D, q, tab). length q])"
    by simp
next
  fix D :: Device and u :: nat and pu :: "nat list" and queue :: "(nat \<times> nat list) list"
    and tab :: "nat \<rightharpoonup> nat list" and new :: "nat list"
  assume new: "new = filter (\<lambda>w. tab w = None) (neighbours D u)"
  show "((D, queue @ map (\<lambda>w. (w, pu @ [w])) new, fold (\<lambda>w t. t(w \<mapsto> pu @ [w])) new tab),
         (D, (u, pu) # queue, tab))
        \<in> measures [\<lambda>(D, q, tab). length (undiscovered D tab), \<lambda>(D, q, tab). length q]"
  proof (cases "new = []")
    case True
    then show ?thesis by simp
  next
    case False
    then show ?thesis
      using undiscovered_shrinks [of tab D u "\<lambda>w. pu @ [w]"] new by simp
  qed
qed

declare bfs.simps [simp del]

definition shortest_path :: "Device \<Rightarrow> nat \<Rightarrow> nat \<Rightarrow> error + nat list" where
  "shortest_path D src dst =
     (if src < qubits D \<and> dst < qubits D
      then Inr (case bfs D [(src, [])] [src \<mapsto> []] dst of None \<Rightarrow> [] | Some p \<Rightarrow> p)
      else Inl DomainError)"

section \<open>The swap mapper\<close>

text \<open>
  \<^verbatim>\<open>class SwapMapper\<close>: the device, the permutation (a \<^verbatim>\<open>std::map<int, int>\<close>) and the
  configured register name. The messages the mapper writes to \<^verbatim>\<open>std::cerr\<close> are
  collected in the state as well, each one with the two qubits it names.
\<close>

datatype diagnostic = NoConnection nat nat

record SwapMapper =
  device :: Device
  permutation :: "nat \<rightharpoonup> nat"
  register_name :: string
  cerr :: "diagnostic list"

text \<open>The constructor: \<^verbatim>\<open>permutation_[i] = i\<close> for every \<open>i < device.qubits_\<close>.\<close>

definition identity_permutation :: "nat \<Rightarrow> (nat \<rightharpoonup> nat)" where
  "identity_permutation n = (\<lambda>i. if i < n then Some i else None)"

definition SwapMapper_init :: "Device \<Rightarrow> SwapMapper" where
  "SwapMapper_init D =
     \<lparr>device = D, permutation = identity_permutation (qubits D),
      register_name = ''q'', cerr = []\<rparr>"

text \<open>
  \<^verbatim>\<open>permutation_[k]\<close> is \<^verbatim>\<open>std::map::operator[]\<close>: a key that is absent is inserted
  with the value \<open>0\<close>, which is returned.
\<close>

definition permutation_at :: "(nat \<rightharpoonup> nat) \<Rightarrow> nat \<Rightarrow> nat \<times> (nat \<rightharpoonup> nat)" where
  "permutation_at p k = (case p k of Some v \<Rightarrow> (v, p) | None \<Rightarrow> (0, p(k \<mapsto> 0)))"

text \<open>\<^verbatim>\<open>replace(ast::VarAccess&)\<close>\<close>

definition replace_VarAccess :: "SwapMapper \<Rightarrow> VarAccess \<Rightarrow> VarAccess option \<times> SwapMapper" where
  "replace_VarAccess M va =
     (if var va = register_name M
      then (let (v, p) = permutation_at (permutation M) (offset va)
            in (Some (VarAccess (va_pos va) (var va) v), M\<lparr>permutation := p\<rparr>))
      else (None, M))"

definition generate_cnot :: "string \<Rightarrow> nat \<Rightarrow> nat \<Rightarrow> Position \<Rightarrow> Gate" where
  "generate_cnot reg i j pos = CNOTGate pos (VarAccess pos reg i) (VarAccess pos reg j)"

definition generate_hadamard :: "string \<Rightarrow> nat \<Rightarrow> Position \<Rightarrow> Gate" where
  "generate_hadamard reg i pos =
     UGate pos (BExpr pos (PiExpr pos) Divide (IntExpr pos 2)) (IntExpr pos 0) (PiExpr pos)
       (VarAccess pos reg i)"

definition generate_swapped_cnot :: "string \<Rightarrow> nat \<Rightarrow> nat \<Rightarrow> Position \<Rightarrow> Gate list" where
  "generate_swapped_cnot reg i j pos =
     [generate_hadamard reg i pos, generate_hadamard reg j pos, generate_cnot reg j i pos,
      generate_hadamard reg i pos, generate_hadamard reg j pos]"

text \<open>
  The three CNOTs pushed for one intermediate step of the chain (lines
  \<^verbatim>\<open>// Swap i and j\<close> to \<^verbatim>\<open>// CNOT 3\<close>).
\<close>

definition swap_gates :: "Device \<Rightarrow> string \<Rightarrow> Position \<Rightarrow> nat \<Rightarrow> nat \<Rightarrow> Gate list" where
  "swap_gates D reg pos i j =
     (let swap_i = (if \<not> coupled D i j then j else i);
          swap_j = (if \<not> coupled D i j then i else j)
      in [generate_cnot reg swap_i swap_j pos]
         @ (if coupled D swap_j swap_i then [generate_cnot reg swap_j swap_i pos]
            else generate_swapped_cnot reg swap_j swap_i pos)
         @ [generate_cnot reg swap_i swap_j pos])"

text \<open>\<^verbatim>\<open>// Adjust permutation\<close>: every value \<open>i\<close> becomes \<open>j\<close>, every value \<open>j\<close> becomes \<open>i\<close>.\<close>

definition adjust_permutation :: "(nat \<rightharpoonup> nat) \<Rightarrow> nat \<Rightarrow> nat \<Rightarrow> (nat \<rightharpoonup> nat)" where
  "adjust_permutation p i j =
     (\<lambda>q_init. case p q_init of None \<Rightarrow> None
        | Some q \<Rightarrow> Some (if q = i then j else if q = j then i else q))"

text \<open>
  The loop \<^verbatim>\<open>for (auto j : cnot_chain)\<close> with its cursor \<open>i\<close>, the list \<open>ret\<close> and
  the permutation; \<^verbatim>\<open>break\<close> ends it at the first \<open>j\<close> equal to the target.
\<close>

fun swap_chain ::
  "Device \<Rightarrow> string \<Rightarrow> Position \<Rightarrow> nat \<Rightarrow> nat \<Rightarrow> nat list \<Rightarrow> Gate list \<Rightarrow> (nat \<rightharpoonup> nat)
     \<Rightarrow> Gate list \<times> (nat \<rightharpoonup> nat)" where
  "swap_chain D reg pos tgt i [] ret p = (ret, p)"
| "swap_chain D reg pos tgt i (j # cnot_chain) ret p =
     (if j = tgt then
        (ret @ (if coupled D i j then [generate_cnot reg i j pos]
                else generate_swapped_cnot reg i j pos), p)
      else if j \<noteq> i then
        swap_chain D reg pos tgt j cnot_chain
          (ret @ swap_gates D reg pos i j) (adjust_permutation p i j)
      else swap_chain D reg pos tgt j cnot_chain ret p)"

text \<open>
  \<^verbatim>\<open>replace(ast::CNOTGate&)\<close>, given the position and the two offsets of the gate
  (only the offsets are read, not the register names). \<open>None\<close> is
  \<^verbatim>\<open>std::nullopt\<close>: the gate is not replaced.
\<close>

definition replace_CNOTGate ::
  "SwapMapper \<Rightarrow> Position \<Rightarrow> nat \<Rightarrow> nat \<Rightarrow> error + (Gate list option \<times> SwapMapper)" where
  "replace_CNOTGate M pos ctrl tgt =
     (case shortest_path (device M) ctrl tgt of
        Inl e \<Rightarrow> Inl e
      | Inr cnot_chain \<Rightarrow>
          if cnot_chain = [] then
            Inr (None, M\<lparr>cerr := cerr M @ [NoConnection ctrl tgt]\<rparr>)
          else
            (let (ret, p) = swap_chain (device M) (register_name M) pos tgt ctrl cnot_chain []
                              (permutation M)
             in Inr (Some ret, M\<lparr>permutation := p\<rparr>)))"

section \<open>The traversal\<close>

text \<open>
  Modelled from the spec: the visitor \<^verbatim>\<open>ast::Replacer\<close> (\<^verbatim>\<open>qasmtools/ast/replacer.hpp\<close>)
  that drives the two \<^verbatim>\<open>replace\<close> functions is not among the sources. The
  specification has it visit the program post-order, children before parents and
  statements in order: a qubit reference is replaced by what \<^verbatim>\<open>replace\<close> returns for
  it and kept on \<^verbatim>\<open>nullopt\<close>; a two-qubit gate, whose references have been rewritten
  by then, is replaced in situ by the returned list and kept on \<^verbatim>\<open>nullopt\<close>;
  single-qubit gates, barriers, measurements and resets only have their references
  rewritten. The mapper overrides the visit of gate and oracle declarations with an empty
  body, so these are not entered.
\<close>

definition visit_VarAccess :: "SwapMapper \<Rightarrow> VarAccess \<Rightarrow> VarAccess \<times> SwapMapper" where
  "visit_VarAccess M va =
     (case replace_VarAccess M va of (Some va', M') \<Rightarrow> (va', M') | (None, M') \<Rightarrow> (va, M'))"

fun visit_VarAccesses :: "SwapMapper \<Rightarrow> VarAccess list \<Rightarrow> VarAccess list \<times> SwapMapper" where
  "visit_VarAccesses M [] = ([], M)"
| "visit_VarAccesses M (va # vas) =
     (let (va', M1) = visit_VarAccess M va; (vas', M2) = visit_VarAccesses M1 vas
      in (va' # vas', M2))"

fun visit_Gate :: "SwapMapper \<Rightarrow> Gate \<Rightarrow> error + (Gate list \<times> SwapMapper)" where
  "visit_Gate M (UGate pos theta phi lambda arg) =
     (let (arg', M1) = visit_VarAccess M arg in Inr ([UGate pos theta phi lambda arg'], M1))"
| "visit_Gate M (CNOTGate pos ctrl tgt) =
     (let (ctrl', M1) = visit_VarAccess M ctrl; (tgt', M2) = visit_VarAccess M1 tgt
      in case replace_CNOTGate M2 pos (offset ctrl') (offset tgt') of
           Inl e \<Rightarrow> Inl e
         | Inr (None, M3) \<Rightarrow> Inr ([CNOTGate pos ctrl' tgt'], M3)
         | Inr (Some gates, M3) \<Rightarrow> Inr (gates, M3))"
| "visit_Gate M (BarrierGate pos args) =
     (let (args', M1) = visit_VarAccesses M args in Inr ([BarrierGate pos args'], M1))"

fun visit_Stmt :: "SwapMapper \<Rightarrow> Stmt \<Rightarrow> error + (Stmt list \<times> SwapMapper)" where
  "visit_Stmt M (GateStmt g) =
     (case visit_Gate M g of Inl e \<Rightarrow> Inl e | Inr (gates, M1) \<Rightarrow> Inr (map GateStmt gates, M1))"
| "visit_Stmt M (MeasureStmt pos q_arg c_arg) =
     (let (q_arg', M1) = visit_VarAccess M q_arg; (c_arg', M2) = visit_VarAccess M1 c_arg
      in Inr ([MeasureStmt pos q_arg' c_arg'], M2))"
| "visit_Stmt M (ResetStmt pos arg) =
     (let (arg', M1) = visit_VarAccess M arg in Inr ([ResetStmt pos arg'], M1))"
| "visit_Stmt M (RegisterDecl pos name quantum len) = Inr ([RegisterDecl pos name quantum len], M)"
| "visit_Stmt M (GateDecl pos name) = Inr ([GateDecl pos name], M)"
| "visit_Stmt M (OracleDecl pos name) = Inr ([OracleDecl pos name], M)"

fun visit_Program :: "SwapMapper \<Rightarrow> Program \<Rightarrow> error + (Program \<times> SwapMapper)" where
  "visit_Program M [] = Inr ([], M)"
| "visit_Program M (s # prog) =
     (case visit_Stmt M s of
        Inl e \<Rightarrow> Inl e
      | Inr (out, M1) \<Rightarrow>
          (case visit_Program M1 prog of
             Inl e \<Rightarrow> Inl e
           | Inr (prog', M2) \<Rightarrow> Inr (out @ prog', M2)))"

text \<open>
  \<^verbatim>\<open>SwapMapper::run\<close> and \<^verbatim>\<open>map_onto_device\<close>. The C++ rewrites the program in place
  and returns \<^verbatim>\<open>permutation_\<close>; here the rewritten program comes back with the final
  mapper, whose \<open>permutation\<close> is the returned value and whose \<open>cerr\<close> is what was
  printed.
\<close>

definition run :: "SwapMapper \<Rightarrow> Program \<Rightarrow> error + (Program \<times> SwapMapper)" where
  "run M prog = visit_Program M prog"

definition map_onto_device :: "Device \<Rightarrow> Program \<Rightarrow> error + (Program \<times> SwapMapper)" where
  "map_onto_device D prog = run (SwapMapper_init D) prog"

section \<open>Properties of paths, programs and permutations\<close>

text \<open>
  A chain from \<open>s\<close>: every step goes along an edge of the symmetric closure of the
  adjacency, and every vertex of it is a qubit of the device.
\<close>

definition is_path :: "Device \<Rightarrow> nat \<Rightarrow> nat list \<Rightarrow> bool" where
  "is_path D s p = (successively (adjacent D) (s # p) \<and> list_all (\<lambda>v. v < qubits D) p)"

definition bfs_inv :: "Device \<Rightarrow> nat \<Rightarrow> (nat \<rightharpoonup> nat list) \<Rightarrow> bool" where
  "bfs_inv D s tab = (\<forall>w p. tab w = Some p \<longrightarrow> is_path D s p \<and> last (s # p) = w)"

text \<open>
  A two-qubit gate is local when its operand pair lies in the symmetric closure of the
  adjacency. \<^verbatim>\<open>CX\<close> is the only two-qubit gate of an inlined program.
\<close>

fun two_qubit_local :: "Device \<Rightarrow> Gate \<Rightarrow> bool" where
  "two_qubit_local D (CNOTGate pos ctrl tgt) = adjacent D (offset ctrl) (offset tgt)"
| "two_qubit_local D (UGate pos theta phi lambda arg) = True"
| "two_qubit_local D (BarrierGate pos args) = True"

fun stmt_local :: "Device \<Rightarrow> Stmt \<Rightarrow> bool" where
  "stmt_local D (GateStmt g) = two_qubit_local D g"
| "stmt_local D (MeasureStmt pos q c) = True"
| "stmt_local D (ResetStmt pos q) = True"
| "stmt_local D (RegisterDecl pos name quantum len) = True"
| "stmt_local D (GateDecl pos name) = True"
| "stmt_local D (OracleDecl pos name) = True"

text \<open>
  The devices of the specification's scenarios, a chain of three qubits whose two edges
  are directed, and a CNOT on the global register.
\<close>

definition symmetric_edges :: "(nat \<times> nat) list \<Rightarrow> nat \<Rightarrow> nat \<Rightarrow> bool" where
  "symmetric_edges es i j = ((i, j) \<in> set es \<or> (j, i) \<in> set es)"

definition linear_chain3 :: Device where
  "linear_chain3 = \<lparr>qubits = 3, couplings = symmetric_edges [(0, 1), (1, 2)]\<rparr>"

definition two_components4 :: Device where
  "two_components4 = \<lparr>qubits = 4, couplings = symmetric_edges [(0, 1), (2, 3)]\<rparr>"

definition directed2 :: Device where
  "directed2 = \<lparr>qubits = 2, couplings = (\<lambda>i j. (i, j) \<in> set [(0, 1)])\<rparr>"

definition directed_chain3 :: Device where
  "directed_chain3 = \<lparr>qubits = 3, couplings = (\<lambda>i j. (i, j) \<in> set [(0, 1), (1, 2)])\<rparr>"

definition CX :: "Position \<Rightarrow> nat \<Rightarrow> nat \<Rightarrow> Stmt" where
  "CX pos c t = GateStmt (CNOTGate pos (VarAccess pos ''q'' c) (VarAccess pos ''q'' t))"

text \<open>
  The encoding of a SWAP in the words of the specification: the labels are swapped so that
  the first CNOT goes along a supported direction, the SWAP is the three CNOTs
  \<open>a b\<close>, \<open>b a\<close>, \<open>a b\<close>, and each of the three whose direction the adjacency does not
  support is replaced by its Hadamard sandwich \<open>H c; H t; CNOT t c; H c; H t\<close>, a
  Hadamard being the gate \<open>U(\<pi>/2, 0, \<pi>)\<close>.
\<close>

definition spec_U :: "string \<Rightarrow> Position \<Rightarrow> Expr \<Rightarrow> Expr \<Rightarrow> Expr \<Rightarrow> nat \<Rightarrow> Gate" where
  "spec_U reg pos theta phi lambda q = UGate pos theta phi lambda (VarAccess pos reg q)"

definition spec_H :: "string \<Rightarrow> Position \<Rightarrow> nat \<Rightarrow> Gate" where
  "spec_H reg pos q =
     spec_U reg pos (BExpr pos (PiExpr pos) Divide (IntExpr pos 2)) (IntExpr pos 0) (PiExpr pos) q"

definition spec_CNOT :: "string \<Rightarrow> Position \<Rightarrow> nat \<Rightarrow> nat \<Rightarrow> Gate" where
  "spec_CNOT reg pos c t = CNOTGate pos (VarAccess pos reg c) (VarAccess pos reg t)"

definition spec_directed_CNOT :: "Device \<Rightarrow> string \<Rightarrow> Position \<Rightarrow> nat \<Rightarrow> nat \<Rightarrow> Gate list" where
  "spec_directed_CNOT D reg pos c t =
     (if coupled D c t then [spec_CNOT reg pos c t]
      else [spec_H reg pos c, spec_H reg pos t, spec_CNOT reg pos t c,
            spec_H reg pos c, spec_H reg pos t])"

definition spec_labels :: "Device \<Rightarrow> nat \<Rightarrow> nat \<Rightarrow> nat \<times> nat" where
  "spec_labels D a b = (if coupled D a b then (a, b) else (b, a))"

definition spec_SWAP :: "Device \<Rightarrow> string \<Rightarrow> Position \<Rightarrow> nat \<Rightarrow> nat \<Rightarrow> Gate list" where
  "spec_SWAP D reg pos a b =
     (let (a', b') = spec_labels D a b
      in spec_directed_CNOT D reg pos a' b' @ spec_directed_CNOT D reg pos b' a'
         @ spec_directed_CNOT D reg pos a' b')"

text \<open>
  Modelled from the spec: the value of an angle expression (\<^verbatim>\<open>ast::Expr\<close> and its
  evaluation are not among the sources): \<open>\<pi>\<close>, integer and real literals and the
  arithmetic of the reals. \<open>is_U_on\<close> says that a gate is \<open>U(\<theta>, \<phi>, \<lambda>)\<close> on the
  qubit \<open>q\<close> of a register.
\<close>

fun eval_expr :: "Expr \<Rightarrow> real" where
  "eval_expr (PiExpr pos) = pi"
| "eval_expr (IntExpr pos v) = real_of_int v"
| "eval_expr (RealExpr pos v) = v"
| "eval_expr (BExpr pos l Plus r) = eval_expr l + eval_expr r"
| "eval_expr (BExpr pos l Minus r) = eval_expr l - eval_expr r"
| "eval_expr (BExpr pos l Times r) = eval_expr l * eval_expr r"
| "eval_expr (BExpr pos l Divide r) = eval_expr l / eval_expr r"

fun is_U_on :: "real \<Rightarrow> real \<Rightarrow> real \<Rightarrow> string \<Rightarrow> nat \<Rightarrow> Gate \<Rightarrow> bool" where
  "is_U_on theta phi lambda reg q (UGate pos th ph la arg) =
     (eval_expr th = theta \<and> eval_expr ph = phi \<and> eval_expr la = lambda
      \<and> var arg = reg \<and> offset arg = q)"
| "is_U_on theta phi lambda reg q (CNOTGate pos ctrl tgt) = False"
| "is_U_on theta phi lambda reg q (BarrierGate pos args) = False"

text \<open>
  The permutation is a bijection on \<open>{0..n-1}\<close>: every key below \<open>n\<close> has a value
  below \<open>n\<close>, and no two of these keys share a value. \<open>value_of\<close> reads the map as
  a function on all indices, the identity where the map has no entry.
\<close>

definition bijection_on :: "nat \<Rightarrow> (nat \<rightharpoonup> nat) \<Rightarrow> bool" where
  "bijection_on n p =
     (list_all (\<lambda>k. case p k of Some v \<Rightarrow> v < n | None \<Rightarrow> False) [0..<n]
      \<and> distinct (map p [0..<n]))"

definition value_of :: "(nat \<rightharpoonup> nat) \<Rightarrow> nat \<Rightarrow> nat" where
  "value_of p k = (case p k of Some v \<Rightarrow> v | None \<Rightarrow> k)"

text \<open>
  Two qubits are connected when a non-empty chain leads from one to the other. On the
  device below, the chain \<open>0 - 1 - 2\<close> with a fourth qubit that has no edge, qubit 3
  is connected to no other.
\<close>

definition connected :: "Device \<Rightarrow> nat \<Rightarrow> nat \<Rightarrow> bool" where
  "connected D c t = (\<exists>p. p \<noteq> [] \<and> is_path D c p \<and> last p = t)"

definition chain3_isolated4 :: Device where
  "chain3_isolated4 = \<lparr>qubits = 4, couplings = symmetric_edges [(0, 1), (1, 2)]\<rparr>"

text \<open>
  All values of the permutation, whatever their keys, are qubits of the device; both
  operands of every CNOT of a statement are on the given register.
\<close>

definition values_below :: "nat \<Rightarrow> (nat \<rightharpoonup> nat) \<Rightarrow> bool" where
  "values_below n p = (\<forall>k v. p k = Some v \<longrightarrow> v < n)"

fun cnot_on_register :: "string \<Rightarrow> Stmt \<Rightarrow> bool" where
  "cnot_on_register reg (GateStmt (CNOTGate pos ctrl tgt)) = (var ctrl = reg \<and> var tgt = reg)"
| "cnot_on_register reg (GateStmt (UGate pos theta phi lambda arg)) = True"
| "cnot_on_register reg (GateStmt (BarrierGate pos args)) = True"
| "cnot_on_register reg (MeasureStmt pos q c) = True"
| "cnot_on_register reg (ResetStmt pos q) = True"
| "cnot_on_register reg (RegisterDecl pos name quantum len) = True"
| "cnot_on_register reg (GateDecl pos name) = True"
| "cnot_on_register reg (OracleDecl pos name) = True"


section \<open>The Python wrapper\<close>

text \<open>
  A \<^verbatim>\<open>double\<close>: a finite number, an infinity or a NaN. The wrapper only compares and
  stores fidelities, so a finite double is read as the real number it denotes. The
  comparisons are those of IEEE 754: \<^verbatim>\<open><\<close> is false as soon as one side is a NaN,
  and \<^verbatim>\<open>!=\<close> is true as soon as one side is a NaN.
\<close>

datatype double = Finite real | PlusInfinity | MinusInfinity | NaN

fun double_less :: "double \<Rightarrow> double \<Rightarrow> bool" where
  "double_less (Finite x) (Finite y) = (x < y)"
| "double_less (Finite x) PlusInfinity = True"
| "double_less MinusInfinity (Finite y) = True"
| "double_less MinusInfinity PlusInfinity = True"
| "double_less a b = False"

definition double_unequal :: "double \<Rightarrow> double \<Rightarrow> bool" where
  "double_unequal a b = (a = NaN \<or> b = NaN \<or> a \<noteq> b)"

text \<open>
  \<^verbatim>\<open>class Device\<close> of \<^verbatim>\<open>pystaq/staq_wrapper.cpp\<close>: the qubit count \<^verbatim>\<open>n_\<close>, the
  single-qubit fidelities \<^verbatim>\<open>sq_fi_\<close>, the adjacency matrix \<^verbatim>\<open>adj_\<close> and the two-qubit
  fidelities \<^verbatim>\<open>tq_fi_\<close>. The constant \<^verbatim>\<open>staq::mapping::FIDELITY_1\<close> is declared in a
  header that is not among the sources and is a parameter here. What the methods print
  to \<^verbatim>\<open>std::cerr\<close> is returned with the updated device. The constructor throws for
  \<open>n \<le> 0\<close>.
\<close>

record PyDevice =
  py_n :: int
  sq_fi :: "double list"
  adj :: "bool list list"
  tq_fi :: "double list list"

datatype py_diagnostic = QubitsOutOfRange int int | FidelityOutOfRange double

datatype py_error = LogicError

definition PyDevice_init :: "double \<Rightarrow> int \<Rightarrow> py_error + PyDevice" where
  "PyDevice_init FIDELITY_1 n =
     (if n \<le> 0 then Inl LogicError
      else Inr \<lparr>py_n = n, sq_fi = replicate (nat n) FIDELITY_1,
                adj = replicate (nat n) (replicate (nat n) False),
                tq_fi = replicate (nat n) (replicate (nat n) FIDELITY_1)\<rparr>)"

text \<open>The assignment \<^verbatim>\<open>m[i][j] = v\<close> to a vector of vectors.\<close>

definition assign2 :: "'a list list \<Rightarrow> nat \<Rightarrow> nat \<Rightarrow> 'a \<Rightarrow> 'a list list" where
  "assign2 m i j v = m[i := (m ! i)[j := v]]"

definition add_edge ::
  "double \<Rightarrow> PyDevice \<Rightarrow> int \<Rightarrow> int \<Rightarrow> bool \<Rightarrow> double \<Rightarrow> PyDevice \<times> py_diagnostic list" where
  "add_edge FIDELITY_1 dev control target directed fidelity =
     (if control < 0 \<or> control \<ge> py_n dev \<or> target < 0 \<or> target \<ge> py_n dev
      then (dev, [QubitsOutOfRange control target])
      else
        (let adj1 = assign2 (adj dev) (nat control) (nat target) True;
             adj2 = (if \<not> directed then assign2 adj1 (nat target) (nat control) True else adj1);
             dev1 = dev\<lparr>adj := adj2\<rparr>
         in if double_unequal fidelity FIDELITY_1 then
              (if double_less fidelity (Finite 0) \<or> double_less (Finite 1) fidelity
               then (dev1, [FidelityOutOfRange fidelity])
               else
                 (let tq1 = assign2 (tq_fi dev1) (nat control) (nat target) fidelity;
                      tq2 = (if \<not> directed
                             then assign2 tq1 (nat target) (nat control) fidelity else tq1)
                  in (dev1\<lparr>tq_fi := tq2\<rparr>, [])))
            else (dev1, [])))"

text \<open>
  \<^verbatim>\<open>Program::map\<close>. Its collaborators are declared in headers that are not among the
  sources and are parameters: the inliner, the qubit estimator, the fully connected
  device, the three layout algorithms, the layout applier, the Steiner mapper and the
  expression simplifier; the swap mapper is the one above. The device read from
  \<^verbatim>\<open>device_json\<close> is passed as read (\<open>None\<close> for the empty string). A collaborator that
  throws ends the call with its error.
\<close>

type_synonym layout = "string \<times> nat \<rightharpoonup> nat"

datatype map_diagnostic = InvalidLayoutAlgorithm | InvalidMappingAlgorithm | Mapper diagnostic

record collaborators =
  inline_ast :: "Program \<Rightarrow> Program"
  estimate_qubits :: "Program \<Rightarrow> nat"
  fully_connected :: "nat \<Rightarrow> Device"
  compute_basic_layout :: "Device \<Rightarrow> Program \<Rightarrow> error + layout"
  compute_eager_layout :: "Device \<Rightarrow> Program \<Rightarrow> error + layout"
  compute_bestfit_layout :: "Device \<Rightarrow> Program \<Rightarrow> error + layout"
  apply_layout :: "layout \<Rightarrow> Device \<Rightarrow> Program \<Rightarrow> Program"
  steiner_mapping :: "Device \<Rightarrow> Program \<Rightarrow> error + Program"
  expr_simplify :: "Program \<Rightarrow> Program"

text \<open>The second half of \<^verbatim>\<open>Program::map\<close>, from \<^verbatim>\<open>apply_layout\<close> on.\<close>

definition map_with_layout ::
  "collaborators \<Rightarrow> Device \<Rightarrow> Program \<Rightarrow> string \<Rightarrow> bool \<Rightarrow> error + layout
     \<Rightarrow> error + (Program \<times> map_diagnostic list)" where
  "map_with_layout ext dev prog mapper evaluate_all computed =
     (case computed of
        Inl e \<Rightarrow> Inl e
      | Inr physical_layout \<Rightarrow>
          (let prog1 = apply_layout ext physical_layout dev prog
           in if mapper = ''swap'' then
                (case map_onto_device dev prog1 of
                   Inl e \<Rightarrow> Inl e
                 | Inr (prog2, M) \<Rightarrow>
                     Inr (if evaluate_all then expr_simplify ext prog2 else prog2,
                          map Mapper (cerr M)))
              else if mapper = ''steiner'' then
                (case steiner_mapping ext dev prog1 of
                   Inl e \<Rightarrow> Inl e
                 | Inr prog2 \<Rightarrow>
                     Inr (if evaluate_all then expr_simplify ext prog2 else prog2, []))
              else Inr (prog1, [InvalidMappingAlgorithm])))"

definition Program_map ::
  "collaborators \<Rightarrow> Program \<Rightarrow> string \<Rightarrow> string \<Rightarrow> bool \<Rightarrow> Device option
     \<Rightarrow> error + (Program \<times> map_diagnostic list)" where
  "Program_map ext prog layout mapper evaluate_all device_json =
     (let prog1 = inline_ast ext prog;
          dev = (case device_json of
                   Some d \<Rightarrow> d
                 | None \<Rightarrow> fully_connected ext (estimate_qubits ext prog1))
      in if layout = ''linear'' then
           map_with_layout ext dev prog1 mapper evaluate_all (compute_basic_layout ext dev prog1)
         else if layout = ''eager'' then
           map_with_layout ext dev prog1 mapper evaluate_all (compute_eager_layout ext dev prog1)
         else if layout = ''bestfit'' then
           map_with_layout ext dev prog1 mapper evaluate_all (compute_bestfit_layout ext dev prog1)
         else Inr (prog1, [InvalidLayoutAlgorithm]))"

text \<open>
  Modelled from the spec: the collaborators that an example with the \<open>linear\<close> layout
  reaches before the mapper is chosen. Inlining leaves an already inlined program as it
  is. The linear layout is the identity on the offsets of the global register and fails
  when the program declares more qubits than the device has. The layout applier rewrites
  every reference \<open>(q, i)\<close> to \<open>(q, layout[i])\<close>, leaves other registers untouched and
  resizes the declaration of \<open>q\<close> to the width of the device. The fully connected
  device couples every two distinct qubits. The collaborators that such an example never
  calls (the other two layouts and the Steiner mapper) are not modelled and stand as
  calls that fail; the expression simplifier is the identity.
\<close>

fun declared_qubits :: "Program \<Rightarrow> nat" where
  "declared_qubits [] = 0"
| "declared_qubits (RegisterDecl pos name quantum len # prog) =
     (if quantum then len else 0) + declared_qubits prog"
| "declared_qubits (s # prog) = declared_qubits prog"

definition linear_layout :: "Device \<Rightarrow> Program \<Rightarrow> error + layout" where
  "linear_layout dev prog =
     (if declared_qubits prog > qubits dev then Inl InsufficientQubits
      else Inr (\<lambda>(name, i). if name = ''q'' \<and> i < declared_qubits prog then Some i else None))"

definition layout_VarAccess :: "layout \<Rightarrow> VarAccess \<Rightarrow> VarAccess" where
  "layout_VarAccess l va =
     (if var va = ''q'' then
        (case l (var va, offset va) of
           Some i \<Rightarrow> VarAccess (va_pos va) (var va) i
         | None \<Rightarrow> va)
      else va)"

fun layout_Gate :: "layout \<Rightarrow> Gate \<Rightarrow> Gate" where
  "layout_Gate l (UGate pos theta phi lambda arg) = UGate pos theta phi lambda (layout_VarAccess l arg)"
| "layout_Gate l (CNOTGate pos ctrl tgt) = CNOTGate pos (layout_VarAccess l ctrl) (layout_VarAccess l tgt)"
| "layout_Gate l (BarrierGate pos args) = BarrierGate pos (map (layout_VarAccess l) args)"

fun layout_Stmt :: "layout \<Rightarrow> Device \<Rightarrow> Stmt \<Rightarrow> Stmt" where
  "layout_Stmt l dev (GateStmt g) = GateStmt (layout_Gate l g)"
| "layout_Stmt l dev (MeasureStmt pos q c) = MeasureStmt pos (layout_VarAccess l q) c"
| "layout_Stmt l dev (ResetStmt pos q) = ResetStmt pos (layout_VarAccess l q)"
| "layout_Stmt l dev (RegisterDecl pos name quantum len) =
     (if quantum \<and> name = ''q'' then RegisterDecl pos name quantum (qubits dev)
      else RegisterDecl pos name quantum len)"
| "layout_Stmt l dev (GateDecl pos name) = GateDecl pos name"
| "layout_Stmt l dev (OracleDecl pos name) = OracleDecl pos name"

definition example_collaborators :: collaborators where
  "example_collaborators =
     \<lparr>inline_ast = (\<lambda>prog. prog),
      estimate_qubits = declared_qubits,
      fully_connected = (\<lambda>n. \<lparr>qubits = n, couplings = (\<lambda>i j. i \<noteq> j \<and> i < n \<and> j < n)\<rparr>),
      compute_basic_layout = linear_layout,
      compute_eager_layout = (\<lambda>dev prog. Inl NotModelled),
      compute_bestfit_layout = (\<lambda>dev prog. Inl NotModelled),
      apply_layout = (\<lambda>l dev prog. map (layout_Stmt l dev) prog),
      steiner_mapping = (\<lambda>dev prog. Inl NotModelled),
      expr_simplify = (\<lambda>prog. prog)\<rparr>"

text \<open>
  A wrapper device is well formed when its adjacency matrix is \<open>n \<times> n\<close> with
  \<open>n > 0\<close>, as the constructor makes it. A double lies in the unit interval when it
  is a finite number from 0 to 1. The fresh device of two qubits, with 0.99 taken for
  the default fidelity.
\<close>

definition well_formed :: "PyDevice \<Rightarrow> bool" where
  "well_formed dev =
     (0 < py_n dev \<and> length (adj dev) = nat (py_n dev)
      \<and> list_all (\<lambda>row. length row = nat (py_n dev)) (adj dev))"

definition in_unit_interval :: "double \<Rightarrow> bool" where
  "in_unit_interval d = (case d of Finite x \<Rightarrow> 0 \<le> x \<and> x \<le> 1 | _ \<Rightarrow> False)"

definition fresh2 :: PyDevice where
  "fresh2 = \<lparr>py_n = 2, sq_fi = [Finite (99 / 100), Finite (99 / 100)],
              adj = [[False, False], [False, False]],
              tq_fi = [[Finite (99 / 100), Finite (99 / 100)],
                       [Finite (99 / 100), Finite (99 / 100)]]\<rparr>"


section \<open>The unitary of a program\<close>

text \<open>
  The unitary that a program induces is computed by no code of the repository: it is the
  standard meaning of the two primitive gates of OpenQASM 2.0, written here on
  amplitudes. A basis state gives every qubit a bit, and a state gives every basis
  state an amplitude; a gate is a linear map on states. \<^verbatim>\<open>U(\<theta>, \<phi>, \<lambda>)\<close> acts on one qubit
  with the matrix whose rows are \<open>cos(\<theta>/2), - exp(i\<lambda>) sin(\<theta>/2)\<close> and
  \<open>exp(i\<phi>) sin(\<theta>/2), exp(i(\<phi>+\<lambda>)) cos(\<theta>/2)\<close>; \<^verbatim>\<open>CX\<close> flips the target in
  the basis states whose control bit is set. A qubit is named by the offset of its
  reference (the program has a single global register).
\<close>

type_synonym basis = "nat \<Rightarrow> bool"

type_synonym state = "basis \<Rightarrow> complex"

definition U_entry :: "real \<Rightarrow> real \<Rightarrow> real \<Rightarrow> bool \<Rightarrow> bool \<Rightarrow> complex" where
  "U_entry theta phi lambda r c =
     (if r then (if c then cis (phi + lambda) * complex_of_real (cos (theta / 2))
                 else cis phi * complex_of_real (sin (theta / 2)))
      else (if c then - (cis lambda * complex_of_real (sin (theta / 2)))
            else complex_of_real (cos (theta / 2))))"

definition apply_U :: "real \<Rightarrow> real \<Rightarrow> real \<Rightarrow> nat \<Rightarrow> state \<Rightarrow> state" where
  "apply_U theta phi lambda q psi =
     (\<lambda>b. U_entry theta phi lambda (b q) False * psi (b(q := False))
        + U_entry theta phi lambda (b q) True * psi (b(q := True)))"

definition apply_CNOT :: "nat \<Rightarrow> nat \<Rightarrow> state \<Rightarrow> state" where
  "apply_CNOT c t psi = (\<lambda>b. psi (b(t := (b t \<noteq> b c))))"

definition apply_H :: "nat \<Rightarrow> state \<Rightarrow> state" where
  "apply_H q = apply_U (pi / 2) 0 pi q"



text \<open>
  The amplitude \<open>1/\<surd>2\<close> of a Hadamard, and the four amplitudes of a state that differ
  from a basis state \<open>b\<close> in the qubits \<open>i\<close> and \<open>j\<close> only.
\<close>

definition half_sqrt2 :: complex where
  "half_sqrt2 = complex_of_real (sqrt 2 / 2)"

definition local2 :: "nat \<Rightarrow> nat \<Rightarrow> basis \<Rightarrow> state \<Rightarrow> bool \<Rightarrow> bool \<Rightarrow> complex" where
  "local2 i j b psi x y = psi (b(i := x, j := y))"

text \<open>
  The linear map of a gate, of a list of gates in program order, and of a program. A
  barrier and a declaration do nothing; a measurement and a reset are not unitary and
  a program that has one induces no unitary.
\<close>

fun Gate_sem :: "Gate \<Rightarrow> state \<Rightarrow> state" where
  "Gate_sem (UGate pos theta phi lambda arg) =
     apply_U (eval_expr theta) (eval_expr phi) (eval_expr lambda) (offset arg)"
| "Gate_sem (CNOTGate pos ctrl tgt) = apply_CNOT (offset ctrl) (offset tgt)"
| "Gate_sem (BarrierGate pos args) = (\<lambda>psi. psi)"

definition gates_sem :: "Gate list \<Rightarrow> state \<Rightarrow> state" where
  "gates_sem gates psi = fold Gate_sem gates psi"



text \<open>
  What the swap mapper presupposes of its input: every qubit reference is to the global
  register \<open>q\<close> with an offset below the width of the device (and no classical
  register bears the name of the global register).
\<close>

definition ref_ok :: "nat \<Rightarrow> VarAccess \<Rightarrow> bool" where
  "ref_ok n va = (var va = ''q'' \<and> offset va < n)"

fun Gate_refs_ok :: "nat \<Rightarrow> Gate \<Rightarrow> bool" where
  "Gate_refs_ok n (UGate pos theta phi lambda arg) = ref_ok n arg"
| "Gate_refs_ok n (CNOTGate pos ctrl tgt) = (ref_ok n ctrl \<and> ref_ok n tgt)"
| "Gate_refs_ok n (BarrierGate pos args) = list_all (ref_ok n) args"

fun Stmt_refs_ok :: "nat \<Rightarrow> Stmt \<Rightarrow> bool" where
  "Stmt_refs_ok n (GateStmt g) = Gate_refs_ok n g"
| "Stmt_refs_ok n (MeasureStmt pos q c) = (ref_ok n q \<and> var c \<noteq> ''q'')"
| "Stmt_refs_ok n (ResetStmt pos q) = ref_ok n q"
| "Stmt_refs_ok n (RegisterDecl pos name quantum len) = True"
| "Stmt_refs_ok n (GateDecl pos name) = True"
| "Stmt_refs_ok n (OracleDecl pos name) = True"


definition keys_below :: "nat \<Rightarrow> (nat \<rightharpoonup> nat) \<Rightarrow> bool" where
  "keys_below n p = (\<forall>k. (p k = None) = (n \<le> k))"



section \<open>The search returns chains of the device\<close>

lemma is_path_Nil: "is_path D s []"
  by (simp add: is_path_def)

lemma is_path_Cons: "is_path D s (j # p) = (adjacent D s j \<and> j < qubits D \<and> is_path D j p)"
  by (auto simp: is_path_def)

lemma is_path_snoc:
  "is_path D s p \<Longrightarrow> adjacent D (last (s # p)) w \<Longrightarrow> w < qubits D \<Longrightarrow> is_path D s (p @ [w])"
  by (induction p arbitrary: s) (auto simp: is_path_Cons is_path_Nil)

lemma bfs_sound:
  "bfs_inv D s tab \<Longrightarrow> (\<forall>(u, pu) \<in> set queue. tab u = Some pu) \<Longrightarrow> bfs_inv D s (bfs D queue tab)"
proof (induction D queue tab rule: bfs.induct)
  case (1 D tab)
  then show ?case by (simp add: bfs.simps)
next
  case (2 D u pu queue tab)
  define new where "new = filter (\<lambda>w. tab w = None) (neighbours D u)"
  define tab' where "tab' = fold (\<lambda>w t. t(w \<mapsto> pu @ [w])) new tab"
  have tu: "tab u = Some pu" using "2.prems"(2) by simp
  then have pu: "is_path D s pu" "last (s # pu) = u"
    using "2.prems"(1) by (auto simp: bfs_inv_def)
  have tab': "\<And>w. tab' w = (if w \<in> set new then Some (pu @ [w]) else tab w)"
    unfolding tab'_def by (rule fold_upd_cases)
  have newD: "\<And>w. w \<in> set new \<Longrightarrow> adjacent D u w \<and> w < qubits D \<and> tab w = None"
    by (auto simp: new_def neighbours_def)
  have inv': "bfs_inv D s tab'"
    unfolding bfs_inv_def
  proof (intro allI impI)
    fix w p assume wp: "tab' w = Some p"
    show "is_path D s p \<and> last (s # p) = w"
    proof (cases "w \<in> set new")
      case True
      then have "p = pu @ [w]" using wp tab' by simp
      then show ?thesis using pu newD [OF True] is_path_snoc [of D s pu w] by simp
    next
      case False
      then have "tab w = Some p" using wp tab' by simp
      then show ?thesis using "2.prems"(1) by (simp add: bfs_inv_def)
    qed
  qed
  have q': "\<forall>(v, pv) \<in> set (queue @ map (\<lambda>w. (w, pu @ [w])) new). tab' v = Some pv"
  proof -
    have "\<And>v pv. (v, pv) \<in> set queue \<Longrightarrow> tab' v = Some pv"
    proof -
      fix v pv assume "(v, pv) \<in> set queue"
      then have "tab v = Some pv" using "2.prems"(2) by auto
      then have "v \<notin> set new" using newD by auto
      then show "tab' v = Some pv" using \<open>tab v = Some pv\<close> tab' by simp
    qed
    then show ?thesis using tab' by auto
  qed
  have "bfs_inv D s (bfs D (queue @ map (\<lambda>w. (w, pu @ [w])) new) tab')"
    using "2.IH" [OF new_def inv' [unfolded tab'_def] q' [unfolded tab'_def]] tab'_def by simp
  then show ?case by (simp add: bfs.simps new_def tab'_def Let_def)
qed

lemma shortest_path_sound:
  assumes "shortest_path D src dst = Inr p" and "p \<noteq> []"
  shows "is_path D src p \<and> last p = dst \<and> src < qubits D \<and> dst < qubits D"
proof -
  from assms(1) have rng: "src < qubits D" "dst < qubits D"
    by (auto simp: shortest_path_def split: if_splits)
  have "bfs_inv D src [src \<mapsto> []]"
    by (simp add: bfs_inv_def is_path_Nil)
  then have inv: "bfs_inv D src (bfs D [(src, [])] [src \<mapsto> []])"
    by (rule bfs_sound) simp
  from assms rng have "bfs D [(src, [])] [src \<mapsto> []] dst = Some p"
    by (auto simp: shortest_path_def split: option.splits)
  with inv have "is_path D src p \<and> last (src # p) = dst"
    by (simp add: bfs_inv_def)
  with assms(2) rng show ?thesis by simp
qed



section \<open>Every emitted CNOT is local\<close>

lemma generate_cnot_local [simp]:
  "two_qubit_local D (generate_cnot reg i j pos) = adjacent D i j"
  by (simp add: generate_cnot_def)

lemma generate_hadamard_local [simp]:
  "two_qubit_local D (generate_hadamard reg i pos)"
  by (simp add: generate_hadamard_def)

lemma adjacent_sym: "adjacent D i j = adjacent D j i"
  by (auto simp: adjacent_def)

lemma generate_swapped_cnot_local:
  "adjacent D i j \<Longrightarrow> list_all (two_qubit_local D) (generate_swapped_cnot reg i j pos)"
  by (simp add: generate_swapped_cnot_def adjacent_sym)

lemma swap_gates_local:
  "adjacent D i j \<Longrightarrow> list_all (two_qubit_local D) (swap_gates D reg pos i j)"
  by (simp add: swap_gates_def Let_def generate_swapped_cnot_local adjacent_sym)

lemma swap_chain_local:
  "is_path D i cnot_chain \<Longrightarrow> list_all (two_qubit_local D) ret \<Longrightarrow>
   list_all (two_qubit_local D) (fst (swap_chain D reg pos tgt i cnot_chain ret p))"
proof (induction cnot_chain arbitrary: i ret p)
  case Nil
  then show ?case by simp
next
  case (Cons j js)
  from Cons.prems(1) have adj: "adjacent D i j" and rest: "is_path D j js"
    by (simp_all add: is_path_Cons)
  show ?case
  proof (cases "j = tgt")
    case True
    then show ?thesis
      using adj Cons.prems(2) by (simp add: generate_swapped_cnot_local)
  next
    case False
    then show ?thesis
      using Cons.IH [OF rest] Cons.prems(2) swap_gates_local [OF adj] by auto
  qed
qed

lemma replace_CNOTGate_Some:
  assumes "replace_CNOTGate M pos ctrl tgt = Inr (Some gates, M')"
  shows "list_all (two_qubit_local (device M)) gates \<and> cerr M' = cerr M \<and> device M' = device M"
proof -
  from assms obtain chain where sp: "shortest_path (device M) ctrl tgt = Inr chain"
    and ne: "chain \<noteq> []"
    and res: "swap_chain (device M) (register_name M) pos tgt ctrl chain [] (permutation M)
                = (gates, permutation M')"
    and M': "M' = M\<lparr>permutation := permutation M'\<rparr>"
    by (auto simp: replace_CNOTGate_def split: sum.splits if_splits prod.splits)
  from shortest_path_sound [OF sp ne] have "is_path (device M) ctrl chain" by simp
  then have "list_all (two_qubit_local (device M))
     (fst (swap_chain (device M) (register_name M) pos tgt ctrl chain [] (permutation M)))"
    by (rule swap_chain_local) simp
  with res have "list_all (two_qubit_local (device M)) gates" by simp
  moreover from M' have "cerr M' = cerr M" "device M' = device M"
    by (metis SwapMapper.select_convs(4) SwapMapper.surjective SwapMapper.update_convs(2),
        metis SwapMapper.select_convs(1) SwapMapper.surjective SwapMapper.update_convs(2))
  ultimately show ?thesis by simp
qed

lemma replace_CNOTGate_None:
  assumes "replace_CNOTGate M pos ctrl tgt = Inr (None, M')"
  shows "M' = M\<lparr>cerr := cerr M @ [NoConnection ctrl tgt]\<rparr>"
  using assms by (auto simp: replace_CNOTGate_def split: sum.splits if_splits prod.splits)

lemma visit_VarAccess_frame:
  "visit_VarAccess M va = (va', M') \<Longrightarrow> cerr M' = cerr M \<and> device M' = device M"
  by (auto simp: visit_VarAccess_def replace_VarAccess_def split: if_splits prod.splits option.splits)

lemma visit_VarAccesses_frame:
  "visit_VarAccesses M vas = (vas', M') \<Longrightarrow> cerr M' = cerr M \<and> device M' = device M"
proof (induction vas arbitrary: M vas' M')
  case Nil
  then show ?case by simp
next
  case (Cons va vas)
  then show ?case
    by (auto split: prod.splits dest!: visit_VarAccess_frame)
qed

lemma visit_Gate_local:
  assumes "visit_Gate M g = Inr (gates, M')"
  shows "device M' = device M \<and> (\<exists>more. cerr M' = cerr M @ more) \<and>
         (cerr M' = [] \<longrightarrow> list_all (two_qubit_local (device M)) gates)"
proof (cases g)
  case (UGate pos theta phi lambda arg)
  with assms show ?thesis
    by (auto split: prod.splits dest!: visit_VarAccess_frame)
next
  case (CNOTGate pos ctrl tgt)
  obtain ctrl' M1 where v1: "visit_VarAccess M ctrl = (ctrl', M1)" by force
  obtain tgt' M2 where v2: "visit_VarAccess M1 tgt = (tgt', M2)" by force
  from visit_VarAccess_frame [OF v1] visit_VarAccess_frame [OF v2]
  have fr: "cerr M2 = cerr M" "device M2 = device M" by simp_all
  from assms CNOTGate v1 v2 obtain r where
    rp: "replace_CNOTGate M2 pos (offset ctrl') (offset tgt') = Inr (r, M')"
    and gates: "gates = (case r of None \<Rightarrow> [CNOTGate pos ctrl' tgt'] | Some gs \<Rightarrow> gs)"
    by (auto split: sum.splits option.splits)
  show ?thesis
  proof (cases r)
    case None
    with rp replace_CNOTGate_None have "M' = M2\<lparr>cerr := cerr M2 @ [NoConnection (offset ctrl') (offset tgt')]\<rparr>"
      by simp
    then show ?thesis using fr by simp
  next
    case (Some gs)
    with rp replace_CNOTGate_Some [of M2 pos "offset ctrl'" "offset tgt'" gs M'] gates fr
    show ?thesis by simp
  qed
next
  case (BarrierGate pos args)
  with assms show ?thesis
    by (auto split: prod.splits dest!: visit_VarAccesses_frame)
qed

lemma visit_Stmt_local:
  assumes "visit_Stmt M s = Inr (out, M')"
  shows "device M' = device M \<and> (\<exists>more. cerr M' = cerr M @ more) \<and>
         (cerr M' = [] \<longrightarrow> list_all (stmt_local (device M)) out)"
proof (cases s)
  case (GateStmt g)
  with assms obtain gates where vg: "visit_Gate M g = Inr (gates, M')" and out: "out = map GateStmt gates"
    by (auto split: sum.splits)
  from visit_Gate_local [OF vg] out show ?thesis
    by (auto simp: list_all_iff)
next
  case (MeasureStmt pos q c)
  with assms show ?thesis
    by (auto split: prod.splits dest!: visit_VarAccess_frame)
next
  case (ResetStmt pos q)
  with assms show ?thesis
    by (auto split: prod.splits dest!: visit_VarAccess_frame)
qed (use assms in auto)

lemma visit_Program_local:
  "visit_Program M prog = Inr (prog', M') \<Longrightarrow>
   device M' = device M \<and> (\<exists>more. cerr M' = cerr M @ more) \<and>
   (cerr M' = [] \<longrightarrow> list_all (stmt_local (device M)) prog')"
proof (induction prog arbitrary: M prog' M')
  case Nil
  then show ?case by simp
next
  case (Cons s prog)
  from Cons.prems obtain out M1 rest where
    vs: "visit_Stmt M s = Inr (out, M1)" and vp: "visit_Program M1 prog = Inr (rest, M')"
    and prog': "prog' = out @ rest"
    by (auto split: sum.splits)
  from visit_Stmt_local [OF vs] Cons.IH [OF vp] prog' show ?case
    by auto
qed


section \<open>The permutation stays a bijection\<close>

lemma bijection_onD:
  assumes "bijection_on n p" and "k < n"
  shows "\<exists>v<n. p k = Some v"
proof -
  from assms(2) have "k \<in> set [0..<n]" by simp
  with assms(1) have "case p k of Some v \<Rightarrow> v < n | None \<Rightarrow> False"
    unfolding bijection_on_def list_all_iff by blast
  then show ?thesis by (cases "p k") auto
qed


lemma bijection_on_identity: "bijection_on n (identity_permutation n)"
  by (auto simp: bijection_on_def identity_permutation_def list_all_iff distinct_map intro!: inj_onI split: if_splits)

lemma bijection_on_adjust:
  assumes "bijection_on n p" and "i < n" and "j < n"
  shows "bijection_on n (adjust_permutation p i j)"
proof -
  let ?s = "\<lambda>q. if q = i then j else if q = j then i else q"
  have ap: "adjust_permutation p i j = map_option ?s \<circ> p"
    by (auto simp: adjust_permutation_def fun_eq_iff split: option.splits)
  have "inj ?s" by (auto intro!: injI split: if_splits)
  then have injs: "inj (map_option ?s)" by (simp add: option.inj_map)
  from assms(1) have "inj_on p (set [0..<n])"
    by (simp add: bijection_on_def distinct_map)
  then have "inj_on (map_option ?s \<circ> p) (set [0..<n])"
    by (rule comp_inj_on) (rule inj_on_subset [OF injs subset_UNIV])
  then have "distinct (map (adjust_permutation p i j) [0..<n])"
    by (simp add: distinct_map ap)
  moreover have "list_all (\<lambda>k. case adjust_permutation p i j k of Some v \<Rightarrow> v < n | None \<Rightarrow> False) [0..<n]"
    unfolding list_all_iff
  proof
    fix k assume "k \<in> set [0..<n]"
    then have "k < n" by simp
    from bijection_onD [OF assms(1) this] obtain v where "v < n" "p k = Some v" by blast
    then show "case adjust_permutation p i j k of Some v \<Rightarrow> v < n | None \<Rightarrow> False"
      using assms(2,3) by (simp add: adjust_permutation_def)
  qed
  ultimately show ?thesis by (simp add: bijection_on_def)
qed

lemma bijection_on_insert:
  assumes "bijection_on n p" and "p k = None"
  shows "bijection_on n (p(k \<mapsto> v))"
proof -
  from assms have "k \<notin> set [0..<n]"
    using bijection_onD [of n p k] by auto
  then have m: "map (p(k \<mapsto> v)) [0..<n] = map p [0..<n]" by auto
  have l: "list_all (\<lambda>x. case (p(k \<mapsto> v)) x of Some v \<Rightarrow> v < n | None \<Rightarrow> False) [0..<n]
      = list_all (\<lambda>x. case p x of Some v \<Rightarrow> v < n | None \<Rightarrow> False) [0..<n]"
    using \<open>k \<notin> set [0..<n]\<close> by (auto simp: list_all_iff)
  show ?thesis
    unfolding bijection_on_def m l using assms(1) by (simp add: bijection_on_def)
qed

lemma swap_chain_bijection:
  "is_path D i cnot_chain \<Longrightarrow> i < qubits D \<Longrightarrow> bijection_on (qubits D) p \<Longrightarrow>
   bijection_on (qubits D) (snd (swap_chain D reg pos tgt i cnot_chain ret p))"
proof (induction cnot_chain arbitrary: i ret p)
  case Nil
  then show ?case by simp
next
  case (Cons j js)
  from Cons.prems(1) have j: "j < qubits D" and rest: "is_path D j js"
    by (simp_all add: is_path_Cons)
  show ?case
    using Cons.IH [OF rest j] Cons.prems(2,3) bijection_on_adjust [OF Cons.prems(3) Cons.prems(2) j]
    by auto
qed

lemma replace_CNOTGate_bijection:
  assumes "replace_CNOTGate M pos ctrl tgt = Inr (r, M')"
    and "bijection_on (qubits (device M)) (permutation M)"
  shows "bijection_on (qubits (device M)) (permutation M')"
proof (cases r)
  case None
  with assms replace_CNOTGate_None show ?thesis by fastforce
next
  case (Some gates)
  with assms(1) obtain chain where sp: "shortest_path (device M) ctrl tgt = Inr chain"
    and ne: "chain \<noteq> []"
    and res: "swap_chain (device M) (register_name M) pos tgt ctrl chain [] (permutation M)
                = (gates, permutation M')"
    by (auto simp: replace_CNOTGate_def split: sum.splits if_splits prod.splits)
  from shortest_path_sound [OF sp ne] have "is_path (device M) ctrl chain" "ctrl < qubits (device M)"
    by simp_all
  from swap_chain_bijection [OF this assms(2), of "register_name M" pos tgt "[]"] res
  show ?thesis by simp
qed

lemma visit_VarAccess_bijection:
  "visit_VarAccess M va = (va', M') \<Longrightarrow> bijection_on n (permutation M) \<Longrightarrow>
   bijection_on n (permutation M')"
  by (auto simp: visit_VarAccess_def replace_VarAccess_def permutation_at_def bijection_on_insert
      split: if_splits prod.splits option.splits)

lemma visit_VarAccesses_bijection:
  "visit_VarAccesses M vas = (vas', M') \<Longrightarrow> bijection_on n (permutation M) \<Longrightarrow>
   bijection_on n (permutation M')"
proof (induction vas arbitrary: M vas' M')
  case Nil
  then show ?case by simp
next
  case (Cons va vas)
  then show ?case
    by (auto split: prod.splits dest: visit_VarAccess_bijection)
qed

lemma visit_Gate_bijection:
  assumes "visit_Gate M g = Inr (gates, M')"
    and "bijection_on (qubits (device M)) (permutation M)"
  shows "bijection_on (qubits (device M)) (permutation M')"
proof (cases g)
  case (UGate pos theta phi lambda arg)
  with assms show ?thesis
    by (auto split: prod.splits dest: visit_VarAccess_bijection)
next
  case (CNOTGate pos ctrl tgt)
  obtain ctrl' M1 where v1: "visit_VarAccess M ctrl = (ctrl', M1)" by force
  obtain tgt' M2 where v2: "visit_VarAccess M1 tgt = (tgt', M2)" by force
  from visit_VarAccess_frame [OF v1] visit_VarAccess_frame [OF v2]
  have fr: "device M2 = device M" by simp
  from assms(2) v1 v2 have b2: "bijection_on (qubits (device M2)) (permutation M2)"
    using fr by (auto dest: visit_VarAccess_bijection)
  from assms(1) CNOTGate v1 v2 obtain r where
    rp: "replace_CNOTGate M2 pos (offset ctrl') (offset tgt') = Inr (r, M')"
    by (auto split: sum.splits option.splits)
  from replace_CNOTGate_bijection [OF rp b2] fr show ?thesis by simp
next
  case (BarrierGate pos args)
  with assms show ?thesis
    by (auto split: prod.splits dest: visit_VarAccesses_bijection)
qed

lemma visit_Stmt_bijection:
  assumes "visit_Stmt M s = Inr (out, M')"
    and "bijection_on (qubits (device M)) (permutation M)"
  shows "bijection_on (qubits (device M)) (permutation M')"
proof (cases s)
  case (GateStmt g)
  with assms show ?thesis
    by (auto split: sum.splits dest: visit_Gate_bijection)
next
  case (MeasureStmt pos q c)
  with assms show ?thesis
    by (auto split: prod.splits dest: visit_VarAccess_bijection)
next
  case (ResetStmt pos q)
  with assms show ?thesis
    by (auto split: prod.splits dest: visit_VarAccess_bijection)
qed (use assms in auto)

lemma visit_Program_bijection:
  "visit_Program M prog = Inr (prog', M') \<Longrightarrow> bijection_on (qubits (device M)) (permutation M) \<Longrightarrow>
   bijection_on (qubits (device M)) (permutation M')"
proof (induction prog arbitrary: M prog' M')
  case Nil
  then show ?case by simp
next
  case (Cons s prog)
  from Cons.prems(1) obtain out M1 rest where
    vs: "visit_Stmt M s = Inr (out, M1)" and vp: "visit_Program M1 prog = Inr (rest, M')"
    by (auto split: sum.splits)
  from visit_Stmt_local [OF vs] have d: "device M1 = device M" by simp
  from visit_Stmt_bijection [OF vs Cons.prems(2)] Cons.IH [OF vp] d show ?case
    by simp
qed

section \<open>Empty paths, disconnected qubits and references out of range\<close>

lemma bfs_keeps: "tab w = Some p \<Longrightarrow> bfs D queue tab w = Some p"
proof (induction D queue tab rule: bfs.induct)
  case (1 D tab)
  then show ?case by (simp add: bfs.simps)
next
  case (2 D u pu queue tab)
  define new where "new = filter (\<lambda>w. tab w = None) (neighbours D u)"
  have "w \<notin> set new" using "2.prems" by (simp add: new_def)
  then have "fold (\<lambda>w t. t(w \<mapsto> pu @ [w])) new tab w = Some p"
    using "2.prems" by (simp add: fold_upd_cases)
  from "2.IH" [OF new_def this] show ?case
    by (simp add: bfs.simps new_def Let_def)
qed

lemma shortest_path_self: "c < qubits D \<Longrightarrow> shortest_path D c c = Inr []"
  by (simp add: shortest_path_def bfs_keeps)

lemma shortest_path_disconnected:
  assumes "\<not> connected D c t" and "c < qubits D" and "t < qubits D"
  shows "shortest_path D c t = Inr []"
proof -
  from assms(2,3) obtain p where p: "shortest_path D c t = Inr p"
    by (simp add: shortest_path_def)
  have "p = []"
  proof (rule ccontr)
    assume "p \<noteq> []"
    from shortest_path_sound [OF p this] \<open>p \<noteq> []\<close> have "connected D c t"
      by (auto simp: connected_def)
    with assms(1) show False by simp
  qed
  with p show ?thesis by simp
qed

lemma replace_CNOTGate_empty:
  "shortest_path (device M) ctrl tgt = Inr [] \<Longrightarrow>
   replace_CNOTGate M pos ctrl tgt = Inr (None, M\<lparr>cerr := cerr M @ [NoConnection ctrl tgt]\<rparr>)"
  by (simp add: replace_CNOTGate_def)

lemma visit_Program_append:
  "visit_Program M (xs @ ys) =
     (case visit_Program M xs of
        Inl e \<Rightarrow> Inl e
      | Inr (xs', M1) \<Rightarrow>
          (case visit_Program M1 ys of Inl e \<Rightarrow> Inl e | Inr (ys', M2) \<Rightarrow> Inr (xs' @ ys', M2)))"
  by (induction xs arbitrary: M) (auto split: sum.splits)

lemma visit_CNOT_empty:
  assumes "visit_VarAccess M c = (c', M1)" and "visit_VarAccess M1 t = (t', M2)"
    and "shortest_path (device M2) (offset c') (offset t') = Inr []"
  shows "visit_Program M (GateStmt (CNOTGate pos c t) # rest) =
     (case visit_Program (M2\<lparr>cerr := cerr M2 @ [NoConnection (offset c') (offset t')]\<rparr>) rest of
        Inl e \<Rightarrow> Inl e
      | Inr (rest', M3) \<Rightarrow> Inr (GateStmt (CNOTGate pos c' t') # rest', M3))"
  using assms by (simp add: replace_CNOTGate_empty split: sum.splits)

lemma visit_Program_cerr_grows:
  "visit_Program M prog = Inr (prog', M') \<Longrightarrow> set (cerr M) \<subseteq> set (cerr M')"
  using visit_Program_local [of M prog prog' M'] by auto

lemma chain3_isolated4_closed:
  "is_path chain3_isolated4 s p \<Longrightarrow> s < 3 \<Longrightarrow> list_all (\<lambda>v. v < 3) p"
proof (induction p arbitrary: s)
  case Nil
  then show ?case by simp
next
  case (Cons j p)
  from Cons.prems have "adjacent chain3_isolated4 s j" and rest: "is_path chain3_isolated4 j p"
    by (simp_all add: is_path_Cons)
  then have "j < 3"
    by (auto simp: adjacent_def coupled_def chain3_isolated4_def symmetric_edges_def)
  with Cons.IH [OF rest] show ?case by simp
qed

lemma chain3_isolated4_disconnected: "\<not> connected chain3_isolated4 0 3"
proof
  assume "connected chain3_isolated4 0 3"
  then obtain p where p: "p \<noteq> []" "is_path chain3_isolated4 0 p" "last p = 3"
    by (auto simp: connected_def)
  from chain3_isolated4_closed [OF p(2)] have "list_all (\<lambda>v. v < 3) p" by simp
  with p(1) have "last p < 3" by (simp add: list_all_iff)
  with p(3) show False by simp
qed

lemma shortest_path_isolated_0_3: "shortest_path chain3_isolated4 0 3 = Inr []"
  by code_simp

lemma shortest_path_isolated_0_2: "shortest_path chain3_isolated4 0 2 = Inr [1, 2]"
  by code_simp

lemma permutation_after_swap_0_1_of_4:
  "adjust_permutation (identity_permutation 4) 0 (Suc 0) = [0 \<mapsto> 1, 1 \<mapsto> 0, 2 \<mapsto> 2, 3 \<mapsto> 3]"
  by (auto simp: adjust_permutation_def identity_permutation_def fun_eq_iff)

lemma visit_VarAccess_absent:
  "var va = register_name M \<Longrightarrow> permutation M (offset va) = None \<Longrightarrow>
   visit_VarAccess M va
     = (VarAccess (va_pos va) (var va) 0, M\<lparr>permutation := (permutation M)(offset va \<mapsto> 0)\<rparr>)"
  by (simp add: visit_VarAccess_def replace_VarAccess_def permutation_at_def)

lemma visit_VarAccess_values:
  assumes "visit_VarAccess M va = (va', M')" and "values_below n (permutation M)" and "0 < n"
  shows "values_below n (permutation M') \<and> register_name M' = register_name M
         \<and> (var va = register_name M \<longrightarrow> offset va' < n)"
proof (cases "var va = register_name M")
  case False
  with assms show ?thesis
    by (simp add: visit_VarAccess_def replace_VarAccess_def)
next
  case True
  show ?thesis
  proof (cases "permutation M (offset va)")
    case None
    with True assms show ?thesis
      by (auto simp: visit_VarAccess_absent values_below_def split: if_splits)
  next
    case (Some v)
    with True assms(1) have "va' = VarAccess (va_pos va) (var va) v \<and> M' = M"
      by (auto simp: visit_VarAccess_def replace_VarAccess_def permutation_at_def)
    with Some assms(2) True show ?thesis
      by (auto simp: values_below_def)
  qed
qed

lemma visit_VarAccesses_values:
  "visit_VarAccesses M vas = (vas', M') \<Longrightarrow> values_below n (permutation M) \<Longrightarrow> 0 < n \<Longrightarrow>
   values_below n (permutation M') \<and> register_name M' = register_name M"
proof (induction vas arbitrary: M vas' M')
  case Nil
  then show ?case by simp
next
  case (Cons va vas)
  obtain va' M1 where v: "visit_VarAccess M va = (va', M1)" by force
  obtain vas1 M2 where vs: "visit_VarAccesses M1 vas = (vas1, M2)" by force
  from Cons.prems(1) v vs have "M' = M2" by simp
  with visit_VarAccess_values [OF v Cons.prems(2,3)] Cons.IH [OF vs _ Cons.prems(3)]
  show ?case by simp
qed

lemma adjust_permutation_values:
  "values_below n p \<Longrightarrow> i < n \<Longrightarrow> j < n \<Longrightarrow> values_below n (adjust_permutation p i j)"
  by (auto simp: values_below_def adjust_permutation_def split: option.splits if_splits)

lemma swap_chain_values:
  "is_path D i cnot_chain \<Longrightarrow> i < qubits D \<Longrightarrow> values_below (qubits D) p \<Longrightarrow>
   values_below (qubits D) (snd (swap_chain D reg pos tgt i cnot_chain ret p))"
proof (induction cnot_chain arbitrary: i ret p)
  case Nil
  then show ?case by simp
next
  case (Cons j js)
  from Cons.prems(1) have j: "j < qubits D" and rest: "is_path D j js"
    by (simp_all add: is_path_Cons)
  show ?case
    using Cons.IH [OF rest j] Cons.prems(2,3)
      adjust_permutation_values [OF Cons.prems(3) Cons.prems(2) j]
    by auto
qed

lemma replace_CNOTGate_total:
  assumes "ctrl < qubits (device M)" and "tgt < qubits (device M)"
    and "values_below (qubits (device M)) (permutation M)"
  shows "\<exists>r M'. replace_CNOTGate M pos ctrl tgt = Inr (r, M')
           \<and> values_below (qubits (device M)) (permutation M')
           \<and> device M' = device M \<and> register_name M' = register_name M"
proof -
  from assms(1,2) obtain chain where sp: "shortest_path (device M) ctrl tgt = Inr chain"
    by (simp add: shortest_path_def)
  show ?thesis
  proof (cases "chain = []")
    case True
    with sp assms(3) show ?thesis by (simp add: replace_CNOTGate_def)
  next
    case False
    obtain ret p where sc:
      "swap_chain (device M) (register_name M) pos tgt ctrl chain [] (permutation M) = (ret, p)"
      by force
    from shortest_path_sound [OF sp False] have "is_path (device M) ctrl chain" by simp
    from swap_chain_values [OF this assms(1,3), of "register_name M" pos tgt "[]"] sc
    have "values_below (qubits (device M)) p" by simp
    with sp False sc show ?thesis by (simp add: replace_CNOTGate_def)
  qed
qed


lemma visit_Stmt_total:
  assumes "values_below (qubits (device M)) (permutation M)" and "0 < qubits (device M)"
    and "cnot_on_register (register_name M) s"
  shows "\<exists>out M'. visit_Stmt M s = Inr (out, M')
           \<and> values_below (qubits (device M)) (permutation M')
           \<and> device M' = device M \<and> register_name M' = register_name M"
proof (cases s)
  case (GateStmt g)
  show ?thesis
  proof (cases g)
    case (UGate pos theta phi lambda arg)
    obtain arg' M1 where v: "visit_VarAccess M arg = (arg', M1)" by force
    from visit_VarAccess_values [OF v assms(1,2)] visit_VarAccess_frame [OF v] v GateStmt UGate
    show ?thesis by simp
  next
    case (CNOTGate pos ctrl tgt)
    with GateStmt assms(3) have reg: "var ctrl = register_name M" "var tgt = register_name M"
      by simp_all
    obtain ctrl' M1 where v1: "visit_VarAccess M ctrl = (ctrl', M1)" by force
    obtain tgt' M2 where v2: "visit_VarAccess M1 tgt = (tgt', M2)" by force
    from visit_VarAccess_values [OF v1 assms(1,2)] visit_VarAccess_frame [OF v1] reg
    have m1: "values_below (qubits (device M)) (permutation M1)" "register_name M1 = register_name M"
      "device M1 = device M" "offset ctrl' < qubits (device M)"
      by simp_all
    from visit_VarAccess_values [OF v2 m1(1) assms(2)] visit_VarAccess_frame [OF v2] reg m1
    have m2: "values_below (qubits (device M2)) (permutation M2)" "register_name M2 = register_name M"
      "device M2 = device M" "offset tgt' < qubits (device M2)" "offset ctrl' < qubits (device M2)"
      by simp_all
    from replace_CNOTGate_total [OF m2(5,4,1), of pos] obtain r M' where
      rp: "replace_CNOTGate M2 pos (offset ctrl') (offset tgt') = Inr (r, M')"
      and m': "values_below (qubits (device M2)) (permutation M')" "device M' = device M2"
        "register_name M' = register_name M2"
      by blast
    from rp m' m2 v1 v2 GateStmt CNOTGate show ?thesis
      by (cases r) simp_all
  next
    case (BarrierGate pos args)
    obtain args' M1 where v: "visit_VarAccesses M args = (args', M1)" by force
    from visit_VarAccesses_values [OF v assms(1,2)] visit_VarAccesses_frame [OF v] v GateStmt BarrierGate
    show ?thesis by simp
  qed
next
  case (MeasureStmt pos q c)
  obtain q' M1 where v1: "visit_VarAccess M q = (q', M1)" by force
  obtain c' M2 where v2: "visit_VarAccess M1 c = (c', M2)" by force
  from visit_VarAccess_values [OF v1 assms(1,2)] visit_VarAccess_frame [OF v1]
  have m1: "values_below (qubits (device M)) (permutation M1)" "register_name M1 = register_name M"
    "device M1 = device M"
    by simp_all
  from visit_VarAccess_values [OF v2 m1(1) assms(2)] visit_VarAccess_frame [OF v2] m1 v1 v2 MeasureStmt
  show ?thesis by simp
next
  case (ResetStmt pos q)
  obtain q' M1 where v: "visit_VarAccess M q = (q', M1)" by force
  from visit_VarAccess_values [OF v assms(1,2)] visit_VarAccess_frame [OF v] v ResetStmt
  show ?thesis by simp
qed (use assms in auto)

lemma visit_Program_total:
  "values_below (qubits (device M)) (permutation M) \<Longrightarrow> 0 < qubits (device M) \<Longrightarrow>
   list_all (cnot_on_register (register_name M)) prog \<Longrightarrow>
   \<exists>prog' M'. visit_Program M prog = Inr (prog', M')"
proof (induction prog arbitrary: M)
  case Nil
  then show ?case by simp
next
  case (Cons s prog)
  from Cons.prems(3) have s: "cnot_on_register (register_name M) s"
    and rest: "list_all (cnot_on_register (register_name M)) prog"
    by simp_all
  from visit_Stmt_total [OF Cons.prems(1,2) s] obtain out M1 where
    vs: "visit_Stmt M s = Inr (out, M1)"
    and m1: "values_below (qubits (device M)) (permutation M1)" "device M1 = device M"
      "register_name M1 = register_name M"
    by blast
  from Cons.IH [of M1] m1 Cons.prems(2) rest obtain prog' M' where
    "visit_Program M1 prog = Inr (prog', M')"
    by auto
  with vs show ?case by simp
qed

lemma values_below_identity: "values_below n (identity_permutation n)"
  by (auto simp: values_below_def identity_permutation_def split: if_splits)


section \<open>The wrapper\<close>

lemma assign2_same:
  "i < length m \<Longrightarrow> j < length (m ! i) \<Longrightarrow> assign2 m i j v ! i ! j = v"
  by (simp add: assign2_def)

lemma assign2_other:
  "a \<noteq> i \<or> b \<noteq> j \<Longrightarrow> assign2 m i j v ! a ! b = m ! a ! b"
  by (cases "i < length m"; cases "a = i") (auto simp: assign2_def list_update_beyond)

lemma assign2_length [simp]: "length (assign2 m i j v) = length m"
  by (simp add: assign2_def)

lemma assign2_row_length [simp]: "length (assign2 m i j v ! k) = length (m ! k)"
  by (cases "k < length m"; cases "k = i") (simp_all add: assign2_def list_update_beyond)

lemma assign2_entry:
  assumes "i < length m" and "j < length (m ! i)"
  shows "assign2 m i j v ! a ! b = (if a = i \<and> b = j then v else m ! a ! b)"
  using assms by (auto simp: assign2_same assign2_other)

lemma assign2_rows:
  "list_all (\<lambda>row. length row = n) m \<Longrightarrow> list_all (\<lambda>row. length row = n) (assign2 m i j v)"
  by (simp add: list_all_length)

text \<open>
  The shape of the adjacency matrix is an invariant of the class: the constructor
  establishes it and \<^verbatim>\<open>add_edge\<close> keeps it.
\<close>

lemma PyDevice_init_well_formed:
  "PyDevice_init dflt n = Inr dev \<Longrightarrow> well_formed dev"
  by (auto simp: PyDevice_init_def well_formed_def list_all_length split: if_splits)

lemma add_edge_well_formed:
  "well_formed dev \<Longrightarrow> well_formed (fst (add_edge dflt dev control target directed fidelity))"
  by (simp add: add_edge_def well_formed_def Let_def assign2_rows)

lemma one_entry:
  "D \<Longrightarrow> (if A then True else Z) = (if A \<or> (B \<and> C \<and> \<not> D) then True else Z)"
  by simp

lemma both_entries:
  "\<not> D \<Longrightarrow> (if B \<and> C then True else if A then True else Z)
                = (if A \<or> (B \<and> C \<and> \<not> D) then True else Z)"
  by auto

lemma out_of_unit_interval_unequal:
  assumes "in_unit_interval dflt"
    and "double_less fidelity (Finite 0) \<or> double_less (Finite 1) fidelity"
  shows "double_unequal fidelity dflt"
proof (cases dflt)
  case (Finite x)
  with assms show ?thesis
    by (cases fidelity) (auto simp: double_unequal_def in_unit_interval_def)
qed (use assms in \<open>simp_all add: in_unit_interval_def\<close>)

text \<open>
  A NaN fidelity passes both range tests, as every comparison with it is false: it is
  stored in the fidelity matrix and nothing is reported. The statements below about a
  fidelity that is reported are about one that compares below 0 or above 1.
\<close>

lemma add_edge_NaN_is_stored:
  "add_edge (Finite (99 / 100)) fresh2 0 1 True NaN
     = (fresh2\<lparr>adj := [[False, True], [False, False]],
               tq_fi := [[Finite (99 / 100), NaN], [Finite (99 / 100), Finite (99 / 100)]]\<rparr>, [])"
  by (simp add: add_edge_def fresh2_def assign2_def double_unequal_def)


section \<open>The mapped program and the unitary\<close>







lemma H_entries:
  "U_entry (pi / 2) 0 pi r c = (if r \<and> c then - half_sqrt2 else half_sqrt2)"
  by (simp add: U_entry_def cos_45 sin_45 half_sqrt2_def)

lemma local2_here: "psi b = local2 i j b psi (b i) (b j)"
  by (simp add: local2_def)

lemma local2_U_first:
  "i \<noteq> j \<Longrightarrow> local2 i j b (apply_U theta phi lambda i psi) x y
     = U_entry theta phi lambda x False * local2 i j b psi False y
       + U_entry theta phi lambda x True * local2 i j b psi True y"
  by (simp add: local2_def apply_U_def fun_upd_twist [of i j])

lemma local2_U_second:
  "i \<noteq> j \<Longrightarrow> local2 i j b (apply_U theta phi lambda j psi) x y
     = U_entry theta phi lambda y False * local2 i j b psi x False
       + U_entry theta phi lambda y True * local2 i j b psi x True"
  by (simp add: local2_def apply_U_def)

lemma local2_CNOT_forward:
  "i \<noteq> j \<Longrightarrow> local2 i j b (apply_CNOT i j psi) x y = local2 i j b psi x (y \<noteq> x)"
  by (simp add: local2_def apply_CNOT_def)

lemma local2_CNOT_backward:
  "i \<noteq> j \<Longrightarrow> local2 i j b (apply_CNOT j i psi) x y = local2 i j b psi (x \<noteq> y) y"
  by (simp add: local2_def apply_CNOT_def fun_upd_twist [of i j])

lemma half_sqrt2_sq: "half_sqrt2 * half_sqrt2 = 1 / 2"
proof -
  have "sqrt 2 / 2 * (sqrt 2 / 2) = (1 / 2 :: real)" by simp
  then have "complex_of_real (sqrt 2 / 2 * (sqrt 2 / 2)) = complex_of_real (1 / 2)" by simp
  then show ?thesis
    unfolding half_sqrt2_def of_real_mult by simp
qed

lemma half_sqrt2_sq_left: "half_sqrt2 * (half_sqrt2 * z) = z / 2"
  using half_sqrt2_sq by (simp add: mult.assoc [symmetric])

lemma hadamard_sandwich:
  assumes "i \<noteq> j"
  shows "apply_H j (apply_H i (apply_CNOT j i (apply_H j (apply_H i psi)))) = apply_CNOT i j psi"
proof
  fix b :: basis
  note ss = half_sqrt2_sq half_sqrt2_sq_left
  define L where "L = local2 i j b psi"
  have "local2 i j b (apply_H j (apply_H i (apply_CNOT j i (apply_H j (apply_H i psi))))) x y
        = L x (y \<noteq> x)" for x y
    unfolding apply_H_def
    by (cases x; cases y)
       (simp_all add: local2_U_first [OF assms] local2_U_second [OF assms]
          local2_CNOT_backward [OF assms] H_entries L_def [symmetric] algebra_simps ss)
  then show "apply_H j (apply_H i (apply_CNOT j i (apply_H j (apply_H i psi)))) b
             = apply_CNOT i j psi b"
    by (simp add: local2_here [of _ b i j] local2_CNOT_forward [OF assms] L_def)
qed

lemma gates_sem_Nil [simp]: "gates_sem [] psi = psi"
  by (simp add: gates_sem_def)

lemma gates_sem_Cons [simp]: "gates_sem (g # gs) psi = gates_sem gs (Gate_sem g psi)"
  by (simp add: gates_sem_def)

lemma gates_sem_append [simp]: "gates_sem (gs @ hs) psi = gates_sem hs (gates_sem gs psi)"
  by (simp add: gates_sem_def)

lemma Gate_sem_cnot [simp]: "Gate_sem (generate_cnot reg i j pos) = apply_CNOT i j"
  by (simp add: generate_cnot_def)

lemma Gate_sem_hadamard [simp]: "Gate_sem (generate_hadamard reg q pos) = apply_H q"
  by (simp add: generate_hadamard_def apply_H_def)

lemma swapped_cnot_sem:
  "i \<noteq> j \<Longrightarrow> gates_sem (generate_swapped_cnot reg i j pos) psi = apply_CNOT i j psi"
  using hadamard_sandwich [of i j psi] by (simp add: generate_swapped_cnot_def)




lemma adjust_permutation_None: "(adjust_permutation p i j k = None) = (p k = None)"
  by (simp add: adjust_permutation_def split: option.splits)

lemma keys_below_adjust: "keys_below n p \<Longrightarrow> keys_below n (adjust_permutation p i j)"
  by (simp add: keys_below_def adjust_permutation_None)


lemma directed_cnot_sem:
  "i \<noteq> j \<Longrightarrow>
   gates_sem (if coupled D i j then [generate_cnot reg i j pos]
              else generate_swapped_cnot reg i j pos) psi = apply_CNOT i j psi"
  by (simp add: swapped_cnot_sem)



lemma keys_below_Some: "keys_below n p \<Longrightarrow> k < n \<Longrightarrow> \<exists>v. p k = Some v"
  unfolding keys_below_def by (metis not_le option.exhaust)


lemma value_of_below:
  "bijection_on n p \<Longrightarrow> k < n \<Longrightarrow> value_of p k < n"
  using bijection_onD [of n p k] by (auto simp: value_of_def)

lemma visit_VarAccess_ok:
  assumes "ref_ok n va" and "keys_below n (permutation M)" and "register_name M = ''q''"
  shows "visit_VarAccess M va
           = (VarAccess (va_pos va) ''q'' (value_of (permutation M) (offset va)), M)"
proof -
  from assms(1) have "offset va < n" by (simp add: ref_ok_def)
  from keys_below_Some [OF assms(2) this] obtain v where v: "permutation M (offset va) = Some v"
    by blast
  with assms show ?thesis
    by (simp add: visit_VarAccess_def replace_VarAccess_def permutation_at_def value_of_def
        ref_ok_def)
qed

lemma visit_VarAccesses_ok:
  assumes "list_all (ref_ok n) vas" and "keys_below n (permutation M)" and "register_name M = ''q''"
  shows "\<exists>vas'. visit_VarAccesses M vas = (vas', M)"
  using assms
proof (induction vas)
  case Nil
  then show ?case by simp
next
  case (Cons va vas)
  then obtain vas' where "visit_VarAccesses M vas = (vas', M)" by auto
  with visit_VarAccess_ok [of n va M] Cons.prems show ?case by simp
qed










lemma keys_below_identity: "keys_below n (identity_permutation n)"
  by (auto simp: keys_below_def identity_permutation_def)

section \<open>The keys of the permutation\<close>

lemma swap_chain_keys:
  "keys_below n p \<Longrightarrow> keys_below n (snd (swap_chain D reg pos tgt i cnot_chain ret p))"
  by (induction cnot_chain arbitrary: i ret p) (simp_all add: keys_below_adjust)

lemma replace_CNOTGate_keys:
  assumes "replace_CNOTGate M pos ctrl tgt = Inr (r, M')" and "keys_below n (permutation M)"
  shows "keys_below n (permutation M') \<and> register_name M' = register_name M"
proof (cases r)
  case None
  with assms replace_CNOTGate_None [of M pos ctrl tgt M'] show ?thesis by simp
next
  case (Some gates)
  with assms(1) obtain chain where
    res: "swap_chain (device M) (register_name M) pos tgt ctrl chain [] (permutation M)
                = (gates, permutation M')"
    and M': "M' = M\<lparr>permutation := permutation M'\<rparr>"
    by (auto simp: replace_CNOTGate_def split: sum.splits if_splits prod.splits)
  from swap_chain_keys [OF assms(2), of "device M" "register_name M" pos tgt ctrl chain "[]"] res
  have "keys_below n (permutation M')" by simp
  moreover from M' have "register_name M' = register_name M"
    by (metis SwapMapper.select_convs(3) SwapMapper.surjective SwapMapper.update_convs(2))
  ultimately show ?thesis by simp
qed

lemma visit_VarAccess_other:
  "var va \<noteq> register_name M \<Longrightarrow> visit_VarAccess M va = (va, M)"
  by (simp add: visit_VarAccess_def replace_VarAccess_def)

lemma visit_Stmt_keys:
  assumes "visit_Stmt M s = Inr (out, M')" and "keys_below n (permutation M)"
    and "register_name M = ''q''" and "Stmt_refs_ok n s"
  shows "keys_below n (permutation M') \<and> register_name M' = ''q''"
proof (cases s)
  case (GateStmt g)
  show ?thesis
  proof (cases g)
    case (UGate pos theta phi lambda arg)
    with GateStmt assms(4) have "ref_ok n arg" by simp
    from visit_VarAccess_ok [OF this assms(2,3)] UGate GateStmt assms(1) have "M' = M" by auto
    with assms(2,3) show ?thesis by simp
  next
    case (CNOTGate pos ctrl tgt)
    with GateStmt assms(4) have ok: "ref_ok n ctrl" "ref_ok n tgt" by simp_all
    from visit_VarAccess_ok [OF ok(1) assms(2,3)] visit_VarAccess_ok [OF ok(2) assms(2,3)]
      CNOTGate GateStmt assms(1)
    obtain r where "replace_CNOTGate M pos (value_of (permutation M) (offset ctrl))
        (value_of (permutation M) (offset tgt)) = Inr (r, M')"
      by (auto split: sum.splits option.splits)
    from replace_CNOTGate_keys [OF this assms(2)] assms(3) show ?thesis by simp
  next
    case (BarrierGate pos args)
    with GateStmt assms(4) have "list_all (ref_ok n) args" by simp
    from visit_VarAccesses_ok [OF this assms(2,3)] BarrierGate GateStmt assms(1) have "M' = M"
      by auto
    with assms(2,3) show ?thesis by simp
  qed
next
  case (MeasureStmt pos q c)
  with assms(4) have q: "ref_ok n q" and c: "var c \<noteq> register_name M"
    using assms(3) by simp_all
  from visit_VarAccess_ok [OF q assms(2,3)] visit_VarAccess_other [OF c] MeasureStmt assms(1)
  have "M' = M" by auto
  with assms(2,3) show ?thesis by simp
next
  case (ResetStmt pos q)
  with assms(4) have "ref_ok n q" by simp
  from visit_VarAccess_ok [OF this assms(2,3)] ResetStmt assms(1) have "M' = M" by auto
  with assms(2,3) show ?thesis by simp
qed (use assms in auto)

lemma visit_Program_keys:
  "visit_Program M prog = Inr (prog', M') \<Longrightarrow> keys_below n (permutation M) \<Longrightarrow>
   register_name M = ''q'' \<Longrightarrow> list_all (Stmt_refs_ok n) prog \<Longrightarrow>
   keys_below n (permutation M')"
proof (induction prog arbitrary: M prog' M')
  case Nil
  then show ?case by auto
next
  case (Cons s prog)
  from Cons.prems(1) obtain out M1 rest where
    vs: "visit_Stmt M s = Inr (out, M1)" and vp: "visit_Program M1 prog = Inr (rest, M')"
    by (auto split: sum.splits)
  from Cons.prems(4) have s: "Stmt_refs_ok n s" and r: "list_all (Stmt_refs_ok n) prog"
    by simp_all
  from visit_Stmt_keys [OF vs Cons.prems(2,3) s] Cons.IH [OF vp _ _ r] show ?case
    by simp
qed


section \<open>Locality\<close>

text \<open>
  Claim C1. For every program and device for which mapping succeeds, every two-qubit gate
  of the mapped program has its operand pair (control, target) in the symmetric closure of
  the adjacency: \<open>adj[control][target]\<close> or \<open>adj[target][control]\<close>. Mapping succeeds
  when \<^verbatim>\<open>map_onto_device\<close> returns and the mapper has reported no error; the device is
  arbitrary.
\<close>

theorem locality:
  assumes "map_onto_device D P = Inr (P', M')" and "cerr M' = []"
  shows "list_all (stmt_local D) P'"
  using visit_Program_local [of "SwapMapper_init D" P P' M'] assms
  by (simp add: map_onto_device_def run_def SwapMapper_init_def)

theorem locality_witness:
  "\<exists>P' M'. map_onto_device linear_chain3 [CX 0 0 2, CX 1 2 0] = Inr (P', M') \<and> cerr M' = []
     \<and> length P' = 5 \<and> list_all (stmt_local linear_chain3) P'"
proof -
  have "case map_onto_device linear_chain3 [CX 0 0 2, CX 1 2 0] of
          Inl e \<Rightarrow> False | Inr (P', M') \<Rightarrow> cerr M' = [] \<and> length P' = 5"
    by code_simp
  then obtain P' M' where r: "map_onto_device linear_chain3 [CX 0 0 2, CX 1 2 0] = Inr (P', M')"
    and c: "cerr M' = []" and l: "length P' = 5"
    by (auto split: sum.splits)
  from locality [OF r c] r c l show ?thesis by blast
qed


section \<open>Scenario B\<close>

lemma shortest_path_chain3_0_2: "shortest_path linear_chain3 0 2 = Inr [1, 2]"
  by code_simp

lemma permutation_after_swap_0_1:
  "adjust_permutation (identity_permutation 3) 0 (Suc 0) = [0 \<mapsto> 1, 1 \<mapsto> 0, 2 \<mapsto> 2]"
  by (auto simp: adjust_permutation_def identity_permutation_def fun_eq_iff)

text \<open>
  Claim C5. On the 3-qubit device with the symmetric edges (0,1) and (1,2), mapping the
  program whose only gate is \<^verbatim>\<open>CNOT q[0],q[2]\<close> emits the SWAP of 0 and 1 as the three
  CNOTs \<^verbatim>\<open>q[0],q[1]\<close>; \<^verbatim>\<open>q[1],q[0]\<close>; \<^verbatim>\<open>q[0],q[1]\<close>, followed by \<^verbatim>\<open>CNOT q[1],q[2]\<close>, and
  the returned permutation maps 0 to 1, 1 to 0 and 2 to 2. Nothing is written to the error
  stream.
\<close>

theorem scenario_B:
  "map_onto_device linear_chain3 [CX pos 0 2]
   = Inr ([CX pos 0 1, CX pos 1 0, CX pos 0 1, CX pos 1 2],
          \<lparr>device = linear_chain3, permutation = [0 \<mapsto> 1, 1 \<mapsto> 0, 2 \<mapsto> 2],
           register_name = ''q'', cerr = []\<rparr>)"
proof -
  have c: "coupled linear_chain3 0 (Suc 0)" "coupled linear_chain3 (Suc 0) 0"
    "coupled linear_chain3 (Suc 0) 2"
    by (simp_all add: coupled_def linear_chain3_def symmetric_edges_def)
  have q: "qubits linear_chain3 = 3"
    by (simp add: linear_chain3_def)
  have ip: "identity_permutation 3 0 = Some 0" "identity_permutation 3 2 = Some 2"
    by (simp_all add: identity_permutation_def)
  show ?thesis
    by (simp add: map_onto_device_def run_def SwapMapper_init_def CX_def visit_VarAccess_def
        replace_VarAccess_def permutation_at_def ip replace_CNOTGate_def
        shortest_path_chain3_0_2 swap_gates_def c generate_cnot_def
        permutation_after_swap_0_1 q)
qed


section \<open>The encoding of a SWAP\<close>

lemma generate_hadamard_spec: "generate_hadamard reg q pos = spec_H reg pos q"
  by (simp add: generate_hadamard_def spec_H_def spec_U_def)

lemma generate_cnot_spec: "generate_cnot reg c t pos = spec_CNOT reg pos c t"
  by (simp add: generate_cnot_def spec_CNOT_def)

lemma swap_gates_spec:
  assumes "adjacent D i j"
  shows "swap_gates D reg pos i j = spec_SWAP D reg pos i j"
proof (cases "coupled D i j")
  case True
  then show ?thesis
    by (simp add: swap_gates_def spec_SWAP_def spec_labels_def spec_directed_CNOT_def
        generate_swapped_cnot_def generate_hadamard_spec generate_cnot_spec)
next
  case False
  with assms have "coupled D j i" by (simp add: adjacent_def)
  with False show ?thesis
    by (simp add: swap_gates_def spec_SWAP_def spec_labels_def spec_directed_CNOT_def
        generate_swapped_cnot_def generate_hadamard_spec generate_cnot_spec)
qed

text \<open>
  Claim C6. An intermediate step of the chain between adjacent slots \<open>i\<close> and \<open>j\<close> emits
  the SWAP as the specification encodes it: three CNOTs, the labels swapped beforehand
  so that the first CNOT goes along a direction the adjacency supports, each CNOT whose
  direction is not supported replaced by its Hadamard sandwich; the permutation is adjusted
  and the cursor moves to \<open>j\<close>. Every Hadamard is the gate \<open>U(\<pi>/2, 0, \<pi>)\<close> on its
  qubit.
\<close>

theorem swap_encoding:
  assumes "adjacent D i j" and "j \<noteq> tgt" and "j \<noteq> i"
  shows "swap_chain D reg pos tgt i (j # cnot_chain) ret p
           = swap_chain D reg pos tgt j cnot_chain (ret @ spec_SWAP D reg pos i j)
               (adjust_permutation p i j)
         \<and> coupled D (fst (spec_labels D i j)) (snd (spec_labels D i j))
         \<and> is_U_on (pi / 2) 0 pi reg q (generate_hadamard reg q pos)"
proof -
  have "coupled D (fst (spec_labels D i j)) (snd (spec_labels D i j))"
    using assms(1) by (auto simp: spec_labels_def adjacent_def)
  moreover have "is_U_on (pi / 2) 0 pi reg q (generate_hadamard reg q pos)"
    by (simp add: generate_hadamard_def)
  ultimately show ?thesis
    using assms by (simp add: swap_gates_spec)
qed

theorem swap_encoding_witness:
  "adjacent directed_chain3 2 1
   \<and> coupled directed_chain3 (fst (spec_labels directed_chain3 2 1))
        (snd (spec_labels directed_chain3 2 1))
   \<and> swap_chain directed_chain3 ''q'' 0 0 2 [1, 0] [] (identity_permutation 3)
       = ([spec_CNOT ''q'' 0 1 2,
           spec_H ''q'' 0 2, spec_H ''q'' 0 1, spec_CNOT ''q'' 0 1 2,
           spec_H ''q'' 0 2, spec_H ''q'' 0 1,
           spec_CNOT ''q'' 0 1 2,
           spec_H ''q'' 0 1, spec_H ''q'' 0 0, spec_CNOT ''q'' 0 0 1,
           spec_H ''q'' 0 1, spec_H ''q'' 0 0],
          adjust_permutation (identity_permutation 3) 2 1)"
proof -
  have a: "adjacent directed_chain3 2 1"
    by (simp add: adjacent_def coupled_def directed_chain3_def)
  have c: "coupled directed_chain3 (Suc 0) 2" "\<not> coupled directed_chain3 2 (Suc 0)"
    "\<not> coupled directed_chain3 (Suc 0) 0"
    by (simp_all add: coupled_def directed_chain3_def)
  from swap_encoding [OF a, of 0 "''q''" 0 "[0]" "[]" "identity_permutation 3"] a c
  show ?thesis
    by (simp add: spec_SWAP_def spec_labels_def spec_directed_CNOT_def generate_swapped_cnot_def
        generate_hadamard_spec generate_cnot_spec)
qed


section \<open>The permutation invariant\<close>

text \<open>
  Claim C7. The permutation is the identity on \<open>{0..n-1}\<close> when the mapper is
  constructed; the update made after an emitted SWAP of the slots \<open>i\<close> and \<open>j\<close> (every
  value \<open>i\<close> becomes \<open>j\<close>, every value \<open>j\<close> becomes \<open>i\<close>) keeps a bijection on
  \<open>{0..n-1}\<close> a bijection; so does the rewrite of every single gate; and so the
  permutation returned by the pass is a bijection on \<open>{0..n-1}\<close>, for every program.
  For a program whose references are all on the global register and within the device,
  the keys of the returned permutation are exactly \<open>{0..n-1}\<close>.
\<close>

theorem permutation_bijection:
  "(\<forall>k. permutation (SwapMapper_init D) k = (if k < qubits D then Some k else None))
   \<and> bijection_on (qubits D) (permutation (SwapMapper_init D))
   \<and> (bijection_on n p \<and> i < n \<and> j < n \<longrightarrow> bijection_on n (adjust_permutation p i j))
   \<and> (bijection_on (qubits (device M)) (permutation M) \<and> visit_Gate M g = Inr (gates, M1)
        \<longrightarrow> bijection_on (qubits (device M)) (permutation M1))
   \<and> (map_onto_device D P = Inr (P', M') \<longrightarrow> bijection_on (qubits D) (permutation M'))
   \<and> (map_onto_device D P = Inr (P', M') \<and> list_all (Stmt_refs_ok (qubits D)) P
        \<longrightarrow> keys_below (qubits D) (permutation M'))"
proof -
  have init: "bijection_on (qubits D) (permutation (SwapMapper_init D))"
    by (simp add: SwapMapper_init_def bijection_on_identity)
  have "map_onto_device D P = Inr (P', M') \<longrightarrow> bijection_on (qubits D) (permutation M')"
    using visit_Program_bijection [of "SwapMapper_init D" P P' M'] init
    by (simp add: map_onto_device_def run_def SwapMapper_init_def)
  moreover have "map_onto_device D P = Inr (P', M') \<and> list_all (Stmt_refs_ok (qubits D)) P
        \<longrightarrow> keys_below (qubits D) (permutation M')"
    using visit_Program_keys [of "SwapMapper_init D" P P' M' "qubits D"]
    by (simp add: map_onto_device_def run_def SwapMapper_init_def keys_below_identity)
  ultimately show ?thesis
    using init bijection_on_adjust [of n p i j] visit_Gate_bijection [of M g gates M1]
    by (simp add: SwapMapper_init_def identity_permutation_def)
qed

theorem permutation_bijection_witness:
  "\<exists>P' M'. map_onto_device linear_chain3 [CX 0 0 2, CX 1 2 0] = Inr (P', M')
     \<and> map (permutation M') [0, 1, 2] = [Some 1, Some 0, Some 2]
     \<and> bijection_on (qubits linear_chain3) (permutation M')
     \<and> keys_below (qubits linear_chain3) (permutation M')"
proof -
  have "case map_onto_device linear_chain3 [CX 0 0 2, CX 1 2 0] of
          Inl e \<Rightarrow> False
        | Inr (P', M') \<Rightarrow> map (permutation M') [0, 1, 2] = [Some 1, Some 0, Some 2]"
    by code_simp
  then obtain P' M' where r: "map_onto_device linear_chain3 [CX 0 0 2, CX 1 2 0] = Inr (P', M')"
    and v: "map (permutation M') [0, 1, 2] = [Some 1, Some 0, Some 2]"
    by (auto split: sum.splits)
  have ok: "list_all (Stmt_refs_ok (qubits linear_chain3)) [CX 0 0 2, CX 1 2 0]"
    by (simp add: CX_def ref_ok_def linear_chain3_def)
  from permutation_bijection [where D = linear_chain3 and P = "[CX 0 0 2, CX 1 2 0]"
      and P' = P' and M' = M'] r ok
  have "bijection_on (qubits linear_chain3) (permutation M')"
    and "keys_below (qubits linear_chain3) (permutation M')" by blast+
  with r v show ?thesis by (intro exI [of _ P'] exI [of _ M'] conjI)
qed


section \<open>An empty path\<close>

text \<open>
  Claim C10. When the shortest path computed for a CNOT is empty (as it is when the
  permuted control equals the permuted target), \<^verbatim>\<open>replace\<close> writes a diagnostic naming
  both qubits and returns \<^verbatim>\<open>nullopt\<close>: the gate stays in the program with its
  rewritten references, the permutation is the one the visit of the two references left,
  and the traversal goes on with the remaining statements, \<^verbatim>\<open>run\<close> returning what
  that yields.
\<close>

theorem empty_path_keeps_gate:
  assumes "visit_VarAccess M c = (c', M1)" and "visit_VarAccess M1 t = (t', M2)"
    and "shortest_path (device M2) (offset c') (offset t') = Inr []"
  shows "replace_CNOTGate M2 pos (offset c') (offset t')
           = Inr (None, M2\<lparr>cerr := cerr M2 @ [NoConnection (offset c') (offset t')]\<rparr>)
         \<and> run M (GateStmt (CNOTGate pos c t) # rest) =
             (case run (M2\<lparr>cerr := cerr M2 @ [NoConnection (offset c') (offset t')]\<rparr>) rest of
                Inl e \<Rightarrow> Inl e
              | Inr (rest', M3) \<Rightarrow> Inr (GateStmt (CNOTGate pos c' t') # rest', M3))
         \<and> (offset c' < qubits (device M2) \<longrightarrow> shortest_path (device M2) (offset c') (offset c') = Inr [])"
  using assms visit_CNOT_empty [OF assms, of pos rest]
  by (simp add: run_def replace_CNOTGate_empty shortest_path_self)

theorem empty_path_keeps_gate_witness:
  "visit_VarAccess (SwapMapper_init two_components4) (VarAccess 0 ''q'' 0)
     = (VarAccess 0 ''q'' 0, SwapMapper_init two_components4)
   \<and> visit_VarAccess (SwapMapper_init two_components4) (VarAccess 0 ''q'' 2)
     = (VarAccess 0 ''q'' 2, SwapMapper_init two_components4)
   \<and> shortest_path (device (SwapMapper_init two_components4)) 0 2 = Inr []
   \<and> shortest_path (device (SwapMapper_init two_components4)) 0 0 = Inr []
   \<and> run (SwapMapper_init two_components4) [CX 0 0 2, CX 1 0 1]
     = Inr ([CX 0 0 2, CX 1 0 1], (SwapMapper_init two_components4)\<lparr>cerr := [NoConnection 0 2]\<rparr>)"
proof -
  let ?M = "SwapMapper_init two_components4"
  have ip: "identity_permutation 4 0 = Some 0" "identity_permutation 4 (Suc 0) = Some (Suc 0)"
    "identity_permutation 4 2 = Some 2"
    by (simp_all add: identity_permutation_def)
  have q: "qubits two_components4 = 4" by (simp add: two_components4_def)
  have v0: "visit_VarAccess ?M (VarAccess 0 ''q'' 0) = (VarAccess 0 ''q'' 0, ?M)"
    by (simp add: visit_VarAccess_def replace_VarAccess_def permutation_at_def SwapMapper_init_def ip q)
  have v2: "visit_VarAccess ?M (VarAccess 0 ''q'' 2) = (VarAccess 0 ''q'' 2, ?M)"
    by (simp add: visit_VarAccess_def replace_VarAccess_def permutation_at_def SwapMapper_init_def ip q)
  have sp: "shortest_path two_components4 0 2 = Inr []" by code_simp
  then have sp': "shortest_path (device ?M) (offset (VarAccess 0 ''q'' 0)) (offset (VarAccess 0 ''q'' 2)) = Inr []"
    by (simp add: SwapMapper_init_def)
  have sp01: "shortest_path two_components4 0 (Suc 0) = Inr [Suc 0]" by code_simp
  have c: "coupled two_components4 0 (Suc 0)"
    by (simp add: coupled_def two_components4_def symmetric_edges_def)
  have rest: "run (?M\<lparr>cerr := cerr ?M @ [NoConnection 0 2]\<rparr>) [CX 1 0 1]
      = Inr ([CX 1 0 1], ?M\<lparr>cerr := [NoConnection 0 2]\<rparr>)"
    by (simp add: run_def CX_def visit_VarAccess_def replace_VarAccess_def permutation_at_def
        SwapMapper_init_def ip q replace_CNOTGate_def sp01 c generate_cnot_def)
  from empty_path_keeps_gate [OF v0 v2 sp', of 0 "[CX 1 0 1]"] rest
  have "run ?M [CX 0 0 2, CX 1 0 1] = Inr ([CX 0 0 2, CX 1 0 1], ?M\<lparr>cerr := [NoConnection 0 2]\<rparr>)"
    and "shortest_path two_components4 0 0 = Inr []"
    by (simp_all add: CX_def SwapMapper_init_def q)
  with v0 v2 sp show ?thesis by (simp add: SwapMapper_init_def)
qed


section \<open>Disconnected qubits\<close>

text \<open>
  Claim C3, as stated: a two-qubit gate whose permuted control and target have no
  connecting path makes the mapper report a hard error naming both qubits, and mapping
  fails for the whole program, with no partial rewrite. It does not: on the chain
  \<open>0 - 1 - 2\<close> with the isolated qubit 3, the pass over \<^verbatim>\<open>CNOT q[0],q[3]; CNOT q[0],q[2]\<close>
  returns normally; the first gate is reported and left in, the second is rewritten with a
  SWAP, and the permutation returned is not the identity.
\<close>

theorem disconnected_gate_does_not_abort:
  "\<not> connected chain3_isolated4 0 3
   \<and> map_onto_device chain3_isolated4 [CX 0 0 3, CX 1 0 2]
     = Inr ([CX 0 0 3, CX 1 0 1, CX 1 1 0, CX 1 0 1, CX 1 1 2],
            \<lparr>device = chain3_isolated4, permutation = [0 \<mapsto> 1, 1 \<mapsto> 0, 2 \<mapsto> 2, 3 \<mapsto> 3],
             register_name = ''q'', cerr = [NoConnection 0 3]\<rparr>)"
proof -
  have c: "coupled chain3_isolated4 0 (Suc 0)" "coupled chain3_isolated4 (Suc 0) 0"
    "coupled chain3_isolated4 (Suc 0) 2"
    by (simp_all add: coupled_def chain3_isolated4_def symmetric_edges_def)
  have q: "qubits chain3_isolated4 = 4"
    by (simp add: chain3_isolated4_def)
  have ip: "identity_permutation 4 0 = Some 0" "identity_permutation 4 2 = Some 2"
    "identity_permutation 4 3 = Some 3"
    by (simp_all add: identity_permutation_def)
  have "map_onto_device chain3_isolated4 [CX 0 0 3, CX 1 0 2]
     = Inr ([CX 0 0 3, CX 1 0 1, CX 1 1 0, CX 1 0 1, CX 1 1 2],
            \<lparr>device = chain3_isolated4, permutation = [0 \<mapsto> 1, 1 \<mapsto> 0, 2 \<mapsto> 2, 3 \<mapsto> 3],
             register_name = ''q'', cerr = [NoConnection 0 3]\<rparr>)"
    by (simp add: map_onto_device_def run_def SwapMapper_init_def CX_def visit_VarAccess_def
        replace_VarAccess_def permutation_at_def ip replace_CNOTGate_def
        shortest_path_isolated_0_3 shortest_path_isolated_0_2 swap_gates_def c generate_cnot_def
        permutation_after_swap_0_1_of_4 q)
  with chain3_isolated4_disconnected show ?thesis by simp
qed

text \<open>
  Claim C3, amended. Disconnected qubits are reported but do not abort the pass. For every
  program with a two-qubit gate whose permuted control and target are qubits of the
  device with no connecting path, the mapper reports an error naming both qubits, leaves
  that gate in place with its permuted operands, and goes on rewriting the statements
  after it; the statements before it stay rewritten, and the error is still in the
  stream when the pass ends.
\<close>

theorem disconnected_gate_is_reported_and_kept:
  assumes "run (SwapMapper_init D) pre = Inr (pre', M)"
    and "visit_VarAccess M c = (c', M1)" and "visit_VarAccess M1 t = (t', M2)"
    and "offset c' < qubits D" and "offset t' < qubits D"
    and "\<not> connected D (offset c') (offset t')"
  shows "map_onto_device D (pre @ GateStmt (CNOTGate pos c t) # post) =
           (case run (M2\<lparr>cerr := cerr M2 @ [NoConnection (offset c') (offset t')]\<rparr>) post of
              Inl e \<Rightarrow> Inl e
            | Inr (post', M3) \<Rightarrow> Inr (pre' @ GateStmt (CNOTGate pos c' t') # post', M3))
         \<and> (\<forall>post' M3.
               run (M2\<lparr>cerr := cerr M2 @ [NoConnection (offset c') (offset t')]\<rparr>) post = Inr (post', M3)
               \<longrightarrow> NoConnection (offset c') (offset t') \<in> set (cerr M3))"
proof -
  let ?M = "M2\<lparr>cerr := cerr M2 @ [NoConnection (offset c') (offset t')]\<rparr>"
  from assms(1) have "device M = D"
    using visit_Program_local [of "SwapMapper_init D" pre pre' M]
    by (simp add: run_def SwapMapper_init_def)
  with visit_VarAccess_frame [OF assms(2)] visit_VarAccess_frame [OF assms(3)]
  have d: "device M2 = D" by simp
  from shortest_path_disconnected [OF assms(6,4,5)] d
  have sp: "shortest_path (device M2) (offset c') (offset t') = Inr []" by simp
  have one: "visit_Program M (GateStmt (CNOTGate pos c t) # post) =
     (case visit_Program ?M post of
        Inl e \<Rightarrow> Inl e
      | Inr (post', M3) \<Rightarrow> Inr (GateStmt (CNOTGate pos c' t') # post', M3))"
    by (rule visit_CNOT_empty [OF assms(2,3) sp])
  have "map_onto_device D (pre @ GateStmt (CNOTGate pos c t) # post) =
           (case run ?M post of
              Inl e \<Rightarrow> Inl e
            | Inr (post', M3) \<Rightarrow> Inr (pre' @ GateStmt (CNOTGate pos c' t') # post', M3))"
  proof -
    have "visit_Program (SwapMapper_init D) (pre @ GateStmt (CNOTGate pos c t) # post) =
        (case visit_Program M (GateStmt (CNOTGate pos c t) # post) of
           Inl e \<Rightarrow> Inl e
         | Inr (ys', M3) \<Rightarrow> Inr (pre' @ ys', M3))"
      using assms(1) by (simp add: visit_Program_append run_def del: visit_Program.simps)
    then show ?thesis
      unfolding one map_onto_device_def run_def by (simp split: sum.splits)
  qed
  moreover have "\<forall>post' M3. run ?M post = Inr (post', M3)
               \<longrightarrow> NoConnection (offset c') (offset t') \<in> set (cerr M3)"
  proof (intro allI impI)
    fix post' M3 assume "run ?M post = Inr (post', M3)"
    from visit_Program_cerr_grows [OF this [unfolded run_def]]
    show "NoConnection (offset c') (offset t') \<in> set (cerr M3)" by auto
  qed
  ultimately show ?thesis by simp
qed

theorem disconnected_gate_is_reported_and_kept_witness:
  "run (SwapMapper_init chain3_isolated4) [CX 0 0 1] = Inr ([CX 0 0 1], SwapMapper_init chain3_isolated4)
   \<and> \<not> connected chain3_isolated4 0 3
   \<and> map_onto_device chain3_isolated4 [CX 0 0 1, CX 1 0 3]
     = Inr ([CX 0 0 1, CX 1 0 3], (SwapMapper_init chain3_isolated4)\<lparr>cerr := [NoConnection 0 3]\<rparr>)"
proof -
  let ?M = "SwapMapper_init chain3_isolated4"
  have ip: "identity_permutation 4 0 = Some 0" "identity_permutation 4 (Suc 0) = Some (Suc 0)"
    "identity_permutation 4 3 = Some 3"
    by (simp_all add: identity_permutation_def)
  have q: "qubits chain3_isolated4 = 4" by (simp add: chain3_isolated4_def)
  have sp01: "shortest_path chain3_isolated4 0 (Suc 0) = Inr [Suc 0]" by code_simp
  have c: "coupled chain3_isolated4 0 (Suc 0)"
    by (simp add: coupled_def chain3_isolated4_def symmetric_edges_def)
  have pre: "run ?M [CX 0 0 1] = Inr ([CX 0 0 1], ?M)"
    by (simp add: run_def CX_def visit_VarAccess_def replace_VarAccess_def permutation_at_def
        SwapMapper_init_def ip q replace_CNOTGate_def sp01 c generate_cnot_def)
  have v0: "visit_VarAccess ?M (VarAccess 1 ''q'' 0) = (VarAccess 1 ''q'' 0, ?M)"
    by (simp add: visit_VarAccess_def replace_VarAccess_def permutation_at_def SwapMapper_init_def ip q)
  have v3: "visit_VarAccess ?M (VarAccess 1 ''q'' 3) = (VarAccess 1 ''q'' 3, ?M)"
    by (simp add: visit_VarAccess_def replace_VarAccess_def permutation_at_def SwapMapper_init_def ip q)
  have r: "offset (VarAccess 1 ''q'' 0) < qubits chain3_isolated4"
    "offset (VarAccess 1 ''q'' 3) < qubits chain3_isolated4"
    by (simp_all add: q)
  have d: "\<not> connected chain3_isolated4 (offset (VarAccess 1 ''q'' 0)) (offset (VarAccess 1 ''q'' 3))"
    using chain3_isolated4_disconnected by simp
  from disconnected_gate_is_reported_and_kept [OF pre v0 v3 r d, of 1 "[]"]
  have "map_onto_device chain3_isolated4 [CX 0 0 1, CX 1 0 3]
     = Inr ([CX 0 0 1, CX 1 0 3], ?M\<lparr>cerr := [NoConnection 0 3]\<rparr>)"
    by (simp add: run_def CX_def SwapMapper_init_def)
  with pre chain3_isolated4_disconnected show ?thesis by simp
qed


section \<open>References out of range\<close>

text \<open>
  Claim C8, as stated: a qubit reference whose offset is outside \<open>{0..n-1}\<close> makes the
  pass fail with a fatal error instead of producing a rewritten reference. It does not:
  on the 3-qubit chain, the reference \<^verbatim>\<open>q[7]\<close> of a single-qubit gate is rewritten to
  \<^verbatim>\<open>q[0]\<close>, the permutation gains the entry \<open>7 \<mapsto> 0\<close>, and the pass returns
  normally with nothing reported.
\<close>

theorem out_of_range_reference_not_fatal:
  "map_onto_device linear_chain3
     [GateStmt (UGate 0 (PiExpr 0) (IntExpr 0 0) (PiExpr 0) (VarAccess 0 ''q'' 7))]
   = Inr ([GateStmt (UGate 0 (PiExpr 0) (IntExpr 0 0) (PiExpr 0) (VarAccess 0 ''q'' 0))],
          \<lparr>device = linear_chain3, permutation = (identity_permutation 3)(7 \<mapsto> 0),
           register_name = ''q'', cerr = []\<rparr>)"
proof -
  have "identity_permutation 3 7 = None"
    by (simp add: identity_permutation_def)
  then show ?thesis
    by (simp add: map_onto_device_def run_def SwapMapper_init_def visit_VarAccess_def
        replace_VarAccess_def permutation_at_def linear_chain3_def)
qed

text \<open>
  Claim C8, amended. The swap mapper does not check the range of a reference. A reference
  to the global register whose offset is not a key of the permutation, as every offset
  outside \<open>{0..n-1}\<close> is when first met, is rewritten to offset 0, and the offset is
  added to the permutation with the value 0. No fatal error comes of it: on a device
  with at least one qubit, a program whose CNOTs act on the global register is always
  mapped to the end, whatever its offsets.
\<close>

theorem out_of_range_reference_is_rewritten:
  "(var va = register_name M \<and> permutation M (offset va) = None \<longrightarrow>
      visit_VarAccess M va
        = (VarAccess (va_pos va) (var va) 0, M\<lparr>permutation := (permutation M)(offset va \<mapsto> 0)\<rparr>))
   \<and> (qubits D \<le> k \<longrightarrow> permutation (SwapMapper_init D) k = None)
   \<and> (0 < qubits D \<and> list_all (cnot_on_register ''q'') P \<longrightarrow>
        (\<exists>P' M'. map_onto_device D P = Inr (P', M')))"
proof -
  have "0 < qubits D \<and> list_all (cnot_on_register ''q'') P \<longrightarrow>
        (\<exists>P' M'. map_onto_device D P = Inr (P', M'))"
    using visit_Program_total [of "SwapMapper_init D" P]
    by (simp add: map_onto_device_def run_def SwapMapper_init_def values_below_identity)
  then show ?thesis
    by (simp add: visit_VarAccess_absent SwapMapper_init_def identity_permutation_def)
qed

theorem out_of_range_reference_is_rewritten_witness:
  "visit_VarAccess (SwapMapper_init linear_chain3) (VarAccess 0 ''q'' 7)
     = (VarAccess 0 ''q'' 0,
        (SwapMapper_init linear_chain3)\<lparr>permutation := (identity_permutation 3)(7 \<mapsto> 0)\<rparr>)
   \<and> permutation (SwapMapper_init linear_chain3) 7 = None
   \<and> (\<exists>P' M'. map_onto_device linear_chain3 [CX 0 0 9, CX 1 5 2] = Inr (P', M'))"
proof -
  have q: "qubits linear_chain3 = 3" by (simp add: linear_chain3_def)
  have "list_all (cnot_on_register ''q'') [CX 0 0 9, CX 1 5 2]"
    by (simp add: CX_def)
  with out_of_range_reference_is_rewritten
         [of "VarAccess 0 ''q'' 7" "SwapMapper_init linear_chain3" linear_chain3 7
             "[CX 0 0 9, CX 1 5 2]"]
  show ?thesis
    by (simp add: q SwapMapper_init_def identity_permutation_def)
qed


section \<open>Adding an edge to a wrapper device\<close>

text \<open>
  Claim C9, as stated: an \<^verbatim>\<open>add_edge\<close> call whose indices are out of range or whose
  fidelity lies outside \<open>[0, 1]\<close> is reported and ignored, both the adjacency matrix
  and the two-qubit fidelity matrix staying as they were. For the fidelity it is not so:
  on the fresh 2-qubit device, \<^verbatim>\<open>add_edge(0, 1, false, 1.5)\<close> reports the fidelity and
  leaves the fidelity matrix alone, but the adjacency matrix has gained the edge in both
  directions.
\<close>

theorem add_edge_bad_fidelity_adds_edge:
  "PyDevice_init (Finite (99 / 100)) 2 = Inr fresh2
   \<and> add_edge (Finite (99 / 100)) fresh2 0 1 False (Finite (3 / 2))
     = (fresh2\<lparr>adj := [[False, True], [True, False]]\<rparr>, [FidelityOutOfRange (Finite (3 / 2))])
   \<and> adj fresh2 = [[False, False], [False, False]]"
  by (simp add: PyDevice_init_def add_edge_def assign2_def numeral_2_eq_2 fresh2_def
      double_unequal_def)

text \<open>
  Claim C9, amended. An \<^verbatim>\<open>add_edge\<close> call whose qubit indices are out of range is
  reported and ignored: the device is left exactly as it was. A call whose indices are in
  range and whose fidelity compares below 0 or above 1 (the default \<^verbatim>\<open>FIDELITY_1\<close>
  lying in the unit interval) is reported and only its fidelity is ignored: on a device
  whose adjacency matrix has the shape that the constructor gives it, the two-qubit
  fidelity matrix, the single-qubit fidelities and the qubit count stay as they were, and
  the adjacency matrix keeps its shape and gains the entry of the edge, and of the
  reverse edge unless the edge is directed, every other entry staying as it was.
\<close>

theorem add_edge_errors:
  "(control < 0 \<or> py_n dev \<le> control \<or> target < 0 \<or> py_n dev \<le> target \<longrightarrow>
      add_edge dflt dev control target directed fidelity
        = (dev, [QubitsOutOfRange control target]))
   \<and> (0 \<le> control \<and> control < py_n dev \<and> 0 \<le> target \<and> target < py_n dev
        \<and> in_unit_interval dflt
        \<and> (double_less fidelity (Finite 0) \<or> double_less (Finite 1) fidelity)
        \<and> well_formed dev \<longrightarrow>
      (\<exists>dev'. add_edge dflt dev control target directed fidelity
                 = (dev', [FidelityOutOfRange fidelity])
         \<and> tq_fi dev' = tq_fi dev \<and> sq_fi dev' = sq_fi dev \<and> py_n dev' = py_n dev
         \<and> well_formed dev'
         \<and> (\<forall>a b. adj dev' ! a ! b =
                (if (a = nat control \<and> b = nat target)
                    \<or> (a = nat target \<and> b = nat control \<and> \<not> directed)
                 then True else adj dev ! a ! b))))"
proof (intro conjI impI)
  assume "control < 0 \<or> py_n dev \<le> control \<or> target < 0 \<or> py_n dev \<le> target"
  then show "add_edge dflt dev control target directed fidelity
        = (dev, [QubitsOutOfRange control target])"
    by (auto simp: add_edge_def)
next
  assume a: "0 \<le> control \<and> control < py_n dev \<and> 0 \<le> target \<and> target < py_n dev
        \<and> in_unit_interval dflt
        \<and> (double_less fidelity (Finite 0) \<or> double_less (Finite 1) fidelity)
        \<and> well_formed dev"
  then have ne: "double_unequal fidelity dflt"
    using out_of_unit_interval_unequal by blast
  define c t where "c = nat control" and "t = nat target"
  from a have c: "c < length (adj dev)" and t: "t < length (adj dev)"
    by (simp_all add: well_formed_def c_def t_def)
  from a have rows: "\<And>k. k < length (adj dev) \<Longrightarrow> length (adj dev ! k) = length (adj dev)"
    by (simp add: well_formed_def list_all_length)
  let ?adj1 = "assign2 (adj dev) c t True"
  let ?adj2 = "if \<not> directed then assign2 ?adj1 t c True else ?adj1"
  have e1: "?adj1 ! x ! y = (if x = c \<and> y = t then True else adj dev ! x ! y)" for x y
    using c t rows by (simp add: assign2_entry)
  have e2: "assign2 ?adj1 t c True ! x ! y
              = (if x = t \<and> y = c then True else ?adj1 ! x ! y)" for x y
    using c t rows by (simp add: assign2_entry)
  have entries: "?adj2 ! x ! y =
                (if (x = c \<and> y = t) \<or> (x = t \<and> y = c \<and> \<not> directed)
                 then True else adj dev ! x ! y)" for x y
  proof (cases directed)
    case True
    then have "?adj2 ! x ! y = ?adj1 ! x ! y"
      by simp
    also have "\<dots> = (if x = c \<and> y = t then True else adj dev ! x ! y)"
      by (rule e1)
    also have "\<dots> = (if (x = c \<and> y = t) \<or> (x = t \<and> y = c \<and> \<not> directed)
                 then True else adj dev ! x ! y)"
      using True by (rule one_entry)
    finally show ?thesis .
  next
    case False
    then have "?adj2 ! x ! y = assign2 ?adj1 t c True ! x ! y"
      by simp
    also have "\<dots> = (if x = t \<and> y = c then True
                       else if x = c \<and> y = t then True else adj dev ! x ! y)"
      by (simp only: e2 e1)
    also have "\<dots> = (if (x = c \<and> y = t) \<or> (x = t \<and> y = c \<and> \<not> directed)
                 then True else adj dev ! x ! y)"
      using False by (rule both_entries)
    finally show ?thesis .
  qed
  have wf: "well_formed (dev\<lparr>adj := ?adj2\<rparr>)"
    using a by (simp add: well_formed_def assign2_rows)
  have sel: "adj (dev\<lparr>adj := ?adj2\<rparr>) = ?adj2"
    by simp
  have res: "add_edge dflt dev control target directed fidelity
          = (dev\<lparr>adj := ?adj2\<rparr>, [FidelityOutOfRange fidelity])"
    using a ne by (simp add: add_edge_def Let_def c_def t_def)
  have "\<exists>dev'. add_edge dflt dev control target directed fidelity
                 = (dev', [FidelityOutOfRange fidelity])
         \<and> tq_fi dev' = tq_fi dev \<and> sq_fi dev' = sq_fi dev \<and> py_n dev' = py_n dev
         \<and> well_formed dev'
         \<and> (\<forall>a b. adj dev' ! a ! b =
                (if (a = c \<and> b = t) \<or> (a = t \<and> b = c \<and> \<not> directed)
                 then True else adj dev ! a ! b))"
  proof (intro exI [of _ "dev\<lparr>adj := ?adj2\<rparr>"] conjI allI)
    show "add_edge dflt dev control target directed fidelity
            = (dev\<lparr>adj := ?adj2\<rparr>, [FidelityOutOfRange fidelity])"
      by (rule res)
    show "well_formed (dev\<lparr>adj := ?adj2\<rparr>)"
      by (rule wf)
    show "adj (dev\<lparr>adj := ?adj2\<rparr>) ! x ! y =
                (if (x = c \<and> y = t) \<or> (x = t \<and> y = c \<and> \<not> directed)
                 then True else adj dev ! x ! y)" for x y
      unfolding sel by (rule entries)
  qed simp_all
  then show "\<exists>dev'. add_edge dflt dev control target directed fidelity
                 = (dev', [FidelityOutOfRange fidelity])
         \<and> tq_fi dev' = tq_fi dev \<and> sq_fi dev' = sq_fi dev \<and> py_n dev' = py_n dev
         \<and> well_formed dev'
         \<and> (\<forall>a b. adj dev' ! a ! b =
                (if (a = nat control \<and> b = nat target)
                    \<or> (a = nat target \<and> b = nat control \<and> \<not> directed)
                 then True else adj dev ! a ! b))"
    unfolding c_def t_def .
qed

theorem add_edge_errors_witness:
  "add_edge (Finite (99 / 100)) fresh2 2 0 False (Finite (1 / 2)) = (fresh2, [QubitsOutOfRange 2 0])
   \<and> well_formed fresh2 \<and> in_unit_interval (Finite (99 / 100))
   \<and> double_less MinusInfinity (Finite 0)
   \<and> (\<exists>dev'. add_edge (Finite (99 / 100)) fresh2 1 0 True MinusInfinity
            = (dev', [FidelityOutOfRange MinusInfinity])
        \<and> tq_fi dev' = tq_fi fresh2
        \<and> adj dev' ! 1 ! 0 \<and> \<not> adj dev' ! 0 ! 1 \<and> \<not> adj dev' ! 0 ! 0 \<and> \<not> adj dev' ! 1 ! 1)"
proof -
  have wf: "well_formed fresh2"
    by (simp add: well_formed_def fresh2_def)
  have n: "py_n fresh2 = 2" by (simp add: fresh2_def)
  have u: "in_unit_interval (Finite (99 / 100))" by (simp add: in_unit_interval_def)
  have old: "\<not> adj fresh2 ! 0 ! 1" "\<not> adj fresh2 ! 0 ! 0" "\<not> adj fresh2 ! 1 ! 1"
    by (simp_all add: fresh2_def)
  from add_edge_errors [where control = 2 and dev = fresh2 and target = 0
      and dflt = "Finite (99 / 100)" and directed = False and fidelity = "Finite (1 / 2)"] n
  have one: "add_edge (Finite (99 / 100)) fresh2 2 0 False (Finite (1 / 2))
               = (fresh2, [QubitsOutOfRange 2 0])"
    by simp
  from add_edge_errors [where control = 1 and dev = fresh2 and target = 0
      and dflt = "Finite (99 / 100)" and directed = True and fidelity = MinusInfinity] wf n u
  obtain dev' where d: "add_edge (Finite (99 / 100)) fresh2 1 0 True MinusInfinity
            = (dev', [FidelityOutOfRange MinusInfinity])"
    "tq_fi dev' = tq_fi fresh2"
    "\<And>a b. adj dev' ! a ! b = (if a = 1 \<and> b = 0 then True else adj fresh2 ! a ! b)"
    by auto
  from d(3) [of 1 0] d(3) [of 0 1] d(3) [of 0 0] d(3) [of 1 1] old
  have "adj dev' ! 1 ! 0 \<and> \<not> adj dev' ! 0 ! 1 \<and> \<not> adj dev' ! 0 ! 0 \<and> \<not> adj dev' ! 1 ! 1"
    by simp
  with d(1,2) one wf u show ?thesis by auto
qed


section \<open>Selector errors\<close>

text \<open>
  Claim C4, as stated: calling \<^verbatim>\<open>map\<close> with a layout selector outside
  \<open>{linear, eager, bestfit}\<close> or a mapper selector outside \<open>{swap, steiner}\<close> reports
  an error and leaves the program identical. With a bad mapper selector it does not: the
  selector is only looked at after the layout has been applied. The program
  \<^verbatim>\<open>qreg q[2]; CX q[0],q[1];\<close>, mapped onto the 3-qubit chain with the layout
  \<open>linear\<close> and a mapper selector that does not exist, comes back with its register
  resized to 3.
\<close>

theorem invalid_mapper_leaves_layout_applied:
  "Program_map example_collaborators [RegisterDecl 0 ''q'' True 2, CX 1 0 1] ''linear'' ''lookahead''
     False (Some linear_chain3)
   = Inr ([RegisterDecl 0 ''q'' True 3, CX 1 0 1], [InvalidMappingAlgorithm])"
  by (simp add: Program_map_def map_with_layout_def example_collaborators_def linear_layout_def
      CX_def layout_VarAccess_def linear_chain3_def)

text \<open>
  Claim C4, amended. Selector errors are reported and stop the call where they are found.
  With a layout selector outside \<open>{linear, eager, bestfit}\<close> the call reports the error
  and leaves the program as the inlining step at the start of \<^verbatim>\<open>map\<close> made it: no
  layout, no mapping. With a layout selector among the three and a mapper selector outside
  \<open>{swap, steiner}\<close>, a call that returns has reported the error and leaves the program
  inlined and with the computed layout applied, but not mapped.
\<close>

theorem selector_errors:
  "(layout \<noteq> ''linear'' \<and> layout \<noteq> ''eager'' \<and> layout \<noteq> ''bestfit'' \<longrightarrow>
      Program_map ext prog layout mapper evaluate_all device_json
        = Inr (inline_ast ext prog, [InvalidLayoutAlgorithm]))
   \<and> ((layout = ''linear'' \<or> layout = ''eager'' \<or> layout = ''bestfit'')
        \<and> mapper \<noteq> ''swap'' \<and> mapper \<noteq> ''steiner''
        \<and> Program_map ext prog layout mapper evaluate_all device_json = Inr (prog', errs) \<longrightarrow>
      errs = [InvalidMappingAlgorithm]
      \<and> (\<exists>dev physical_layout.
            dev = (case device_json of
                     Some d \<Rightarrow> d
                   | None \<Rightarrow> fully_connected ext (estimate_qubits ext (inline_ast ext prog)))
            \<and> (if layout = ''linear'' then compute_basic_layout ext dev (inline_ast ext prog)
                else if layout = ''eager'' then compute_eager_layout ext dev (inline_ast ext prog)
                else compute_bestfit_layout ext dev (inline_ast ext prog)) = Inr physical_layout
            \<and> prog' = apply_layout ext physical_layout dev (inline_ast ext prog)))"
  by (auto simp: Program_map_def map_with_layout_def Let_def split: sum.splits if_splits)

theorem selector_errors_witness:
  "Program_map example_collaborators [RegisterDecl 0 ''q'' True 2, CX 1 0 1] ''sabre'' ''swap''
      False (Some linear_chain3)
     = Inr ([RegisterDecl 0 ''q'' True 2, CX 1 0 1], [InvalidLayoutAlgorithm])
   \<and> Program_map example_collaborators [RegisterDecl 0 ''q'' True 2, CX 1 0 1] ''linear'' ''astar''
      False (Some linear_chain3)
     = Inr ([RegisterDecl 0 ''q'' True 3, CX 1 0 1], [InvalidMappingAlgorithm])
   \<and> (\<exists>physical_layout.
         compute_basic_layout example_collaborators linear_chain3
           (inline_ast example_collaborators [RegisterDecl 0 ''q'' True 2, CX 1 0 1])
           = Inr physical_layout
         \<and> [RegisterDecl 0 ''q'' True 3, CX 1 0 1]
           = apply_layout example_collaborators physical_layout linear_chain3
               (inline_ast example_collaborators [RegisterDecl 0 ''q'' True 2, CX 1 0 1]))"
proof -
  let ?prog = "[RegisterDecl 0 ''q'' True 2, CX 1 0 1]"
  have a: "Program_map example_collaborators ?prog ''linear'' ''astar'' False (Some linear_chain3)
     = Inr ([RegisterDecl 0 ''q'' True 3, CX 1 0 1], [InvalidMappingAlgorithm])"
    by (simp add: Program_map_def map_with_layout_def example_collaborators_def linear_layout_def
        CX_def layout_VarAccess_def linear_chain3_def)
  from selector_errors [where layout = "''sabre''" and ext = example_collaborators
      and prog = ?prog and mapper = "''swap''" and evaluate_all = False
      and device_json = "Some linear_chain3"]
  have b: "Program_map example_collaborators ?prog ''sabre'' ''swap'' False (Some linear_chain3)
     = Inr (?prog, [InvalidLayoutAlgorithm])"
    by (simp add: example_collaborators_def)
  from selector_errors [where layout = "''linear''" and ext = example_collaborators
      and prog = ?prog and mapper = "''astar''" and evaluate_all = False
      and device_json = "Some linear_chain3"
      and prog' = "[RegisterDecl 0 ''q'' True 3, CX 1 0 1]"
      and errs = "[InvalidMappingAlgorithm]"] a
  have "\<exists>physical_layout.
         compute_basic_layout example_collaborators linear_chain3
           (inline_ast example_collaborators ?prog) = Inr physical_layout
         \<and> [RegisterDecl 0 ''q'' True 3, CX 1 0 1]
           = apply_layout example_collaborators physical_layout linear_chain3
               (inline_ast example_collaborators ?prog)"
    by simp
  with a b show ?thesis by simp
qed


section \<open>Semantic equivalence\<close>





end
